theory Spec2Isabelle
  imports Main "HOL-Library.Sublist"
begin

section \<open>The event manager of src/misc/events.c\<close>

text \<open>
  The file implements a publish/subscribe dispatcher: an event manager holds an array of
  listener groups (one per registered event type), each group holds an array of listeners
  (callback, user data), and \<open>vlc_event_send\<close> calls the listeners of the first group
  whose type is the event's.

  The model is sequential: one thread of control, with callbacks that may call back into
  the manager from inside \<open>vlc_event_send\<close>. Every function of the file takes the
  manager's mutex on entry and releases it before it returns and before it calls a
  listener, so in a sequential run the mutex is free at every lock and the lock and unlock
  calls do not touch anything else; they are left out of the model.
\<close>

subsection \<open>Data\<close>

type_synonym addr = nat
  \<comment> \<open>the address of a heap block, or an opaque \<open>void *\<close>\<close>

type_synonym vlc_event_type_t = int
  \<comment> \<open>a C enum\<close>

type_synonym vlc_event_callback_t = nat
  \<comment> \<open>a function pointer; the code compares it with \<open>==\<close>\<close>

text \<open>
  Modelled from the spec: the return codes are declared in the public header vlc/vlc.h,
  which is not among the sources. events.c returns these three: success, the
  specification's OutOfMemory (\<open>VLC_ENOMEM\<close>) and, for its UnknownEventType of attach
  and its NotFound of detach alike, \<open>VLC_EGENERIC\<close>.
\<close>

datatype vlc_status = VLC_SUCCESS | VLC_ENOMEM | VLC_EGENERIC

record vlc_event_listener_t =
  p_user_data :: addr
  pf_callback :: vlc_event_callback_t

text \<open>
  \<open>DECL_ARRAY(struct vlc_event_listener_t *) listeners\<close>: an array of pointers to
  listeners.
\<close>

record vlc_event_listeners_group_t =
  event_type :: vlc_event_type_t
  listeners :: "addr list"

text \<open>
  Modelled from the spec: the event and the manager are declared in vlc_events.h, which
  is not among the sources. The event has an event-type key (events.c reads \<open>type\<close>), a
  source field that the manager overwrites with its owner (events.c writes \<open>p_obj\<close>)
  and a payload that the manager never looks at. The manager has the fields events.c
  uses: its owner \<open>p_obj\<close>, the parent object that gets the messages, the array of
  pointers to its groups, and the mutex, which the model leaves out.
\<close>

record vlc_event_t =
  ev_type :: vlc_event_type_t
  ev_p_obj :: addr
  ev_u :: nat

record vlc_event_manager_t =
  p_obj :: addr
  p_parent_object :: addr
  listeners_groups :: "addr list"

datatype msg_level = Msg_Err | Msg_Warn

text \<open>
  The state the functions work on: the manager \<open>*p_em\<close>, the heap blocks of the two
  struct types, the blocks \<open>malloc\<close> has left to give, the messages sent to the
  parent object with \<open>msg_Err\<close> and \<open>msg_Warn\<close>, and the listener calls made so far
  (callback, event, user data), which is how a theorem can say who was called.
\<close>

record world =
  em :: vlc_event_manager_t
  groups_mem :: "addr \<rightharpoonup> vlc_event_listeners_group_t"
  listeners_mem :: "addr \<rightharpoonup> vlc_event_listener_t"
  free_list :: "addr list"
  msgs :: "(msg_level \<times> string) list"
  calls :: "(vlc_event_callback_t \<times> vlc_event_t \<times> addr) list"

subsection \<open>The C library and the array macros\<close>

text \<open>
  \<open>malloc\<close> returns the next free block, or NULL (\<open>None\<close>) when none is left;
  \<open>free\<close> gives the block back, whatever was stored in it. Which blocks are free, and
  in which order they are handed out, is part of the state, so a theorem about every
  state is a theorem about every allocation order and about every point at which memory
  runs out. \<open>msg_Err\<close> and \<open>msg_Warn\<close> add a message to those the parent object has
  received.
\<close>

definition malloc :: "world \<Rightarrow> (addr \<times> world) option" where
  "malloc w = (case free_list w of [] \<Rightarrow> None | a # as \<Rightarrow> Some (a, w\<lparr>free_list := as\<rparr>))"

definition free :: "world \<Rightarrow> addr \<Rightarrow> world" where
  "free w a =
     w\<lparr>groups_mem := (groups_mem w)(a := None),
       listeners_mem := (listeners_mem w)(a := None),
       free_list := a # free_list w\<rparr>"

definition msg_Err :: "world \<Rightarrow> string \<Rightarrow> world" where
  "msg_Err w s = w\<lparr>msgs := msgs w @ [(Msg_Err, s)]\<rparr>"

definition msg_Warn :: "world \<Rightarrow> string \<Rightarrow> world" where
  "msg_Warn w s = w\<lparr>msgs := msgs w @ [(Msg_Warn, s)]\<rparr>"

text \<open>
  Modelled from the spec: the array macros \<open>DECL_ARRAY\<close>, \<open>ARRAY_INIT\<close>,
  \<open>ARRAY_APPEND\<close>, \<open>ARRAY_REMOVE\<close>, \<open>FOREACH_ARRAY\<close> and \<open>FOREACH_END\<close> are
  declared in vlc_arrays.h, which is not among the sources. The spec takes the container
  as a generic ordered, appendable, removable sequence: an array is a list,
  \<open>ARRAY_INIT\<close> makes it empty, \<open>ARRAY_APPEND\<close> adds at the end and \<open>ARRAY_REMOVE\<close>
  takes out the element at a position. \<open>FOREACH_ARRAY (item, array) ... FOREACH_END ()\<close>
  is the loop \<open>for (fe_idx = 0; fe_idx < size; fe_idx++) { item = array[fe_idx]; ... }\<close>
  over the array itself: events.c uses the macro's \<open>fe_idx\<close> as the position of the
  current item in the array (in \<open>vlc_event_detach\<close>), leaves the loop with
  \<open>break\<close> and \<open>return\<close>, and makes no copy of an array anywhere. Each loop of the file
  is a recursive function on \<open>fe_idx\<close> below.
\<close>

definition ARRAY_APPEND :: "'a list \<Rightarrow> 'a \<Rightarrow> 'a list" where
  "ARRAY_APPEND array elem = array @ [elem]"

definition ARRAY_REMOVE :: "'a list \<Rightarrow> nat \<Rightarrow> 'a list" where
  "ARRAY_REMOVE array pos = take pos array @ drop (Suc pos) array"

subsection \<open>Initialisation and registration\<close>

text \<open>
  \<open>vlc_event_manager_fini\<close> ends the life of the manager and is not part of this
  development.
\<close>

definition vlc_event_manager_init :: "world \<Rightarrow> addr \<Rightarrow> addr \<Rightarrow> vlc_status \<times> world" where
  "vlc_event_manager_init w obj parent_obj =
     (VLC_SUCCESS,
      w\<lparr>em := \<lparr>p_obj = obj, p_parent_object = parent_obj, listeners_groups = []\<rparr>\<rparr>)"

definition vlc_event_manager_register_event_type ::
  "world \<Rightarrow> vlc_event_type_t \<Rightarrow> vlc_status \<times> world" where
  "vlc_event_manager_register_event_type w t =
     (case malloc w of
        None \<Rightarrow> (VLC_ENOMEM, w)
      | Some (listeners_group, w1) \<Rightarrow>
          (VLC_SUCCESS,
           w1\<lparr>groups_mem := (groups_mem w1)(listeners_group \<mapsto> \<lparr>event_type = t, listeners = []\<rparr>),
              em := (em w1)\<lparr>listeners_groups :=
                       ARRAY_APPEND (listeners_groups (em w1)) listeners_group\<rparr>\<rparr>))"

subsection \<open>Attaching a listener\<close>

text \<open>
  A function that reads through a pointer returns \<open>None\<close> when the pointer is not the
  address of a live block (undefined behaviour in C). The loop over the groups of
  \<open>__vlc_event_attach\<close>: at the first group of the type the listener is appended and
  the function returns; after the loop come the error message, the \<open>free\<close> and the error
  return.
\<close>

function attach_groups ::
  "world \<Rightarrow> nat \<Rightarrow> vlc_event_type_t \<Rightarrow> addr \<Rightarrow> (vlc_status \<times> world) option" where
  "attach_groups w fe_idx t listener =
     (if fe_idx < length (listeners_groups (em w)) then
        (let listeners_group = listeners_groups (em w) ! fe_idx in
         case groups_mem w listeners_group of
           None \<Rightarrow> None
         | Some grp \<Rightarrow>
             if event_type grp = t then
               Some (VLC_SUCCESS,
                     w\<lparr>groups_mem := (groups_mem w)(listeners_group \<mapsto>
                          grp\<lparr>listeners := ARRAY_APPEND (listeners grp) listener\<rparr>)\<rparr>)
             else attach_groups w (Suc fe_idx) t listener)
      else
        Some (VLC_EGENERIC,
              free (msg_Err w ''Can't attach to an object event manager event'') listener))"
  by pat_completeness auto
termination
  by (relation "measure (\<lambda>(w, fe_idx, t, listener). length (listeners_groups (em w)) - fe_idx)")
     auto

definition vlc_event_attach ::
  "world \<Rightarrow> vlc_event_type_t \<Rightarrow> vlc_event_callback_t \<Rightarrow> addr \<Rightarrow> (vlc_status \<times> world) option" where
  "vlc_event_attach w t callback user_data =
     (case malloc w of
        None \<Rightarrow> Some (VLC_ENOMEM, w)
      | Some (listener, w1) \<Rightarrow>
          attach_groups
            (w1\<lparr>listeners_mem := (listeners_mem w1)(listener \<mapsto>
                   \<lparr>p_user_data = user_data, pf_callback = callback\<rparr>)\<rparr>)
            0 t listener)"

subsection \<open>Detaching a listener\<close>

text \<open>
  The inner loop of \<open>vlc_event_detach\<close> over the listeners of one group either returns
  from the function (the listener at \<open>fe_idx\<close> is removed and freed) or runs to its end.
\<close>

datatype scan = Scan_fault | Scan_end | Scan_return world

function detach_listeners ::
  "world \<Rightarrow> addr \<Rightarrow> nat \<Rightarrow> vlc_event_callback_t \<Rightarrow> addr \<Rightarrow> scan" where
  "detach_listeners w listeners_group fe_idx callback user_data =
     (case groups_mem w listeners_group of
        None \<Rightarrow> Scan_fault
      | Some grp \<Rightarrow>
          if fe_idx < length (listeners grp) then
            (let listener = listeners grp ! fe_idx in
             case listeners_mem w listener of
               None \<Rightarrow> Scan_fault
             | Some l \<Rightarrow>
                 if pf_callback l = callback \<and> p_user_data l = user_data then
                   Scan_return
                     (free
                        (w\<lparr>groups_mem := (groups_mem w)(listeners_group \<mapsto>
                              grp\<lparr>listeners := ARRAY_REMOVE (listeners grp) fe_idx\<rparr>)\<rparr>)
                        listener)
                 else detach_listeners w listeners_group (Suc fe_idx) callback user_data)
          else Scan_end)"
  by pat_completeness auto
termination
  by (relation "measure (\<lambda>(w, g, fe_idx, callback, user_data).
        length (listeners (the (groups_mem w g))) - fe_idx)")
     auto

text \<open>
  The outer loop: there is no \<open>break\<close> after the inner loop, so when the inner loop ends
  without a match the outer loop goes on to the next group.
\<close>

function detach_groups ::
  "world \<Rightarrow> nat \<Rightarrow> vlc_event_type_t \<Rightarrow> vlc_event_callback_t \<Rightarrow> addr
     \<Rightarrow> (vlc_status \<times> world) option" where
  "detach_groups w fe_idx t callback user_data =
     (if fe_idx < length (listeners_groups (em w)) then
        (let listeners_group = listeners_groups (em w) ! fe_idx in
         case groups_mem w listeners_group of
           None \<Rightarrow> None
         | Some grp \<Rightarrow>
             if event_type grp = t then
               (case detach_listeners w listeners_group 0 callback user_data of
                  Scan_fault \<Rightarrow> None
                | Scan_return w' \<Rightarrow> Some (VLC_SUCCESS, w')
                | Scan_end \<Rightarrow> detach_groups w (Suc fe_idx) t callback user_data)
             else detach_groups w (Suc fe_idx) t callback user_data)
      else
        Some (VLC_EGENERIC,
              msg_Warn w ''Can't detach to an object event manager event''))"
  by pat_completeness auto
termination
  by (relation "measure (\<lambda>(w, fe_idx, t, callback, user_data).
        length (listeners_groups (em w)) - fe_idx)")
     auto

definition vlc_event_detach ::
  "world \<Rightarrow> vlc_event_type_t \<Rightarrow> vlc_event_callback_t \<Rightarrow> addr \<Rightarrow> (vlc_status \<times> world) option" where
  "vlc_event_detach w t callback user_data = detach_groups w 0 t callback user_data"

subsection \<open>Listeners that call back into the manager\<close>

text \<open>
  What the code behind a callback does is not part of events.c. For the manager it is a
  sequence of calls of the manager's own functions, each possibly depending on what the
  previous ones returned: a tree. \<open>Return\<close> is a callback that leaves the manager alone.
  The environment \<open>prog\<close> gives the tree of each function pointer; the callback gets
  the event through a pointer to const, and its user data.
\<close>

datatype cb_code =
    Return
  | Call_attach vlc_event_type_t vlc_event_callback_t addr "vlc_status \<Rightarrow> cb_code"
  | Call_detach vlc_event_type_t vlc_event_callback_t addr "vlc_status \<Rightarrow> cb_code"
  | Call_register vlc_event_type_t "vlc_status \<Rightarrow> cb_code"
  | Call_send vlc_event_t cb_code

type_synonym prog = "vlc_event_callback_t \<Rightarrow> vlc_event_t \<Rightarrow> addr \<Rightarrow> cb_code"

subsection \<open>Sending an event\<close>

text \<open>
  A listener may send or attach without end, so the functions that run listeners take a
  bound \<open>n\<close> on the number of steps (one for each listener called and for each call a
  callback makes); \<open>None\<close> stands for a call that does not return: the bound is used up,
  or a pointer is not valid.

  \<open>send_listeners\<close> is the inner loop of \<open>vlc_event_send\<close>: at each step it reads the
  group's array as it is then, copies the callback and the user data, and calls.
  \<open>send_groups\<close> is the outer loop, left with \<open>break\<close> after the inner loop.
\<close>

function run_cb :: "prog \<Rightarrow> nat \<Rightarrow> cb_code \<Rightarrow> world \<Rightarrow> world option"
  and send_listeners :: "prog \<Rightarrow> nat \<Rightarrow> addr \<Rightarrow> nat \<Rightarrow> vlc_event_t \<Rightarrow> world \<Rightarrow> world option"
  and send_groups :: "prog \<Rightarrow> nat \<Rightarrow> nat \<Rightarrow> vlc_event_t \<Rightarrow> world \<Rightarrow> world option"
  and vlc_event_send :: "prog \<Rightarrow> nat \<Rightarrow> vlc_event_t \<Rightarrow> world \<Rightarrow> (vlc_event_t \<times> world) option"
where
  "run_cb prog n Return w = Some w"
| "run_cb prog n (Call_attach t f d k) w =
     (case n of 0 \<Rightarrow> None
      | Suc m \<Rightarrow>
          (case vlc_event_attach w t f d of
             None \<Rightarrow> None
           | Some (r, w') \<Rightarrow> run_cb prog m (k r) w'))"
| "run_cb prog n (Call_detach t f d k) w =
     (case n of 0 \<Rightarrow> None
      | Suc m \<Rightarrow>
          (case vlc_event_detach w t f d of
             None \<Rightarrow> None
           | Some (r, w') \<Rightarrow> run_cb prog m (k r) w'))"
| "run_cb prog n (Call_register t k) w =
     (case n of 0 \<Rightarrow> None
      | Suc m \<Rightarrow>
          (case vlc_event_manager_register_event_type w t of
             (r, w') \<Rightarrow> run_cb prog m (k r) w'))"
| "run_cb prog n (Call_send e k) w =
     (case n of 0 \<Rightarrow> None
      | Suc m \<Rightarrow>
          (case vlc_event_send prog m e w of
             None \<Rightarrow> None
           | Some (e', w') \<Rightarrow> run_cb prog m k w'))"
| "send_listeners prog n listeners_group fe_idx p_event w =
     (case groups_mem w listeners_group of
        None \<Rightarrow> None
      | Some grp \<Rightarrow>
          if fe_idx < length (listeners grp) then
            (case listeners_mem w (listeners grp ! fe_idx) of
               None \<Rightarrow> None
             | Some listener \<Rightarrow>
                 (let func = pf_callback listener;
                      user_data = p_user_data listener
                  in case n of 0 \<Rightarrow> None
                     | Suc m \<Rightarrow>
                         (case run_cb prog m (prog func p_event user_data)
                                 (w\<lparr>calls := calls w @ [(func, p_event, user_data)]\<rparr>) of
                            None \<Rightarrow> None
                          | Some w' \<Rightarrow>
                              send_listeners prog m listeners_group (Suc fe_idx) p_event w')))
          else Some w)"
| "send_groups prog n fe_idx p_event w =
     (if fe_idx < length (listeners_groups (em w)) then
        (let listeners_group = listeners_groups (em w) ! fe_idx in
         case groups_mem w listeners_group of
           None \<Rightarrow> None
         | Some grp \<Rightarrow>
             if event_type grp = ev_type p_event then
               send_listeners prog n listeners_group 0 p_event w
             else send_groups prog n (Suc fe_idx) p_event w)
      else Some w)"
| "vlc_event_send prog n p_event w =
     (let p_event' = p_event\<lparr>ev_p_obj := p_obj (em w)\<rparr> in
      case send_groups prog n 0 p_event' w of
        None \<Rightarrow> None
      | Some w' \<Rightarrow> Some (p_event', w'))"
  by pat_completeness auto
termination
  by (relation "inv_image (less_than <*lex*> less_than <*lex*> less_than)
        (\<lambda>x. case x of
           Inl (Inl (prog, n, c, w)) \<Rightarrow> (n, 0, 0)
         | Inl (Inr (prog, n, g, fe_idx, e, w)) \<Rightarrow> (n, 1, 0)
         | Inr (Inl (prog, n, fe_idx, e, w)) \<Rightarrow> (n, 2, length (listeners_groups (em w)) - fe_idx)
         | Inr (Inr (prog, n, e, w)) \<Rightarrow> (n, 3, 0))")
     auto

subsection \<open>Looking at a state\<close>

text \<open>
  The type and the listener array of the group at an address, the first group of a type
  in the manager's array, and the types of the groups in registration order.
\<close>

definition type_of_group :: "world \<Rightarrow> addr \<Rightarrow> vlc_event_type_t option" where
  "type_of_group w g = map_option event_type (groups_mem w g)"

definition group_listeners :: "world \<Rightarrow> addr \<Rightarrow> addr list" where
  "group_listeners w g = (case groups_mem w g of None \<Rightarrow> [] | Some grp \<Rightarrow> listeners grp)"

definition find_group :: "world \<Rightarrow> vlc_event_type_t \<Rightarrow> addr option" where
  "find_group w t = find (\<lambda>g. type_of_group w g = Some t) (listeners_groups (em w))"

definition categories :: "world \<Rightarrow> vlc_event_type_t option list" where
  "categories w = map (type_of_group w) (listeners_groups (em w))"

text \<open>
  The states the manager can be in. The pointers of the manager's array are the addresses
  of distinct groups; the pointers of a group's array are the addresses of listeners, each
  in one place of one array only and none of them a group of the manager; no free block
  holds anything.
\<close>

definition valid_world :: "world \<Rightarrow> bool" where
  "valid_world w \<longleftrightarrow>
     distinct (listeners_groups (em w)) \<and>
     (\<forall>g \<in> set (listeners_groups (em w)).
        groups_mem w g \<noteq> None \<and>
        distinct (group_listeners w g) \<and>
        (\<forall>l \<in> set (group_listeners w g).
           listeners_mem w l \<noteq> None \<and>
           l \<notin> set (listeners_groups (em w)) \<and>
           (\<forall>g' \<in> set (listeners_groups (em w)). g' \<noteq> g \<longrightarrow> l \<notin> set (group_listeners w g')))) \<and>
     distinct (free_list w) \<and>
     (\<forall>a \<in> set (free_list w). groups_mem w a = None \<and> listeners_mem w a = None)"

text \<open>
  Only the first group of a type has listeners: a group with a listener is the group
  that the search for its type finds.
\<close>

definition first_owns :: "world \<Rightarrow> bool" where
  "first_owns w \<longleftrightarrow>
     (\<forall>g \<in> set (listeners_groups (em w)).
        case groups_mem w g of
          None \<Rightarrow> True
        | Some grp \<Rightarrow> listeners grp = [] \<or> find_group w (event_type grp) = Some g)"

text \<open>
  The states a manager gets into: it is initialised in a state in which the free blocks
  are distinct and hold nothing, and from then on its functions are called, with the
  callbacks of \<open>prog\<close> behind the listeners.
\<close>

inductive reachable :: "prog \<Rightarrow> world \<Rightarrow> bool" for prog :: prog where
  init:
    "distinct (free_list w) \<Longrightarrow>
     (\<forall>a \<in> set (free_list w). groups_mem w a = None \<and> listeners_mem w a = None) \<Longrightarrow>
     reachable prog (snd (vlc_event_manager_init w obj parent_obj))"
| register:
    "reachable prog w \<Longrightarrow>
     reachable prog (snd (vlc_event_manager_register_event_type w t))"
| attach:
    "reachable prog w \<Longrightarrow> vlc_event_attach w t callback user_data = Some (r, w') \<Longrightarrow>
     reachable prog w'"
| detach:
    "reachable prog w \<Longrightarrow> vlc_event_detach w t callback user_data = Some (r, w') \<Longrightarrow>
     reachable prog w'"
| send:
    "reachable prog w \<Longrightarrow> vlc_event_send prog n e w = Some (e', w') \<Longrightarrow>
     reachable prog w'"

text \<open>
  The call that \<open>vlc_event_send\<close> makes for the listener at an address, and the
  listeners of a group that leave the manager alone when they are called with an event.
\<close>

definition call_of ::
  "world \<Rightarrow> vlc_event_t \<Rightarrow> addr \<Rightarrow> vlc_event_callback_t \<times> vlc_event_t \<times> addr" where
  "call_of w e l =
     (case listeners_mem w l of
        None \<Rightarrow> (0, e, 0)
      | Some li \<Rightarrow> (pf_callback li, e, p_user_data li))"

definition quiet :: "prog \<Rightarrow> vlc_event_t \<Rightarrow> world \<Rightarrow> addr list \<Rightarrow> bool" where
  "quiet prog e w ls \<longleftrightarrow>
     (\<forall>l \<in> set ls.
        case listeners_mem w l of
          None \<Rightarrow> False
        | Some li \<Rightarrow> prog (pf_callback li) e (p_user_data li) = Return)"

text \<open>A callback that never registers an event type, whatever its calls return.\<close>

primrec no_register :: "cb_code \<Rightarrow> bool" where
  "no_register Return = True"
| "no_register (Call_attach t f d k) = (\<forall>r. no_register (k r))"
| "no_register (Call_detach t f d k) = (\<forall>r. no_register (k r))"
| "no_register (Call_register t k) = False"
| "no_register (Call_send e k) = no_register k"

text \<open>
  A listener at an address is the one \<open>vlc_event_detach\<close> looks for when its callback
  and its user data are both the ones given. Taking a listener out of a group: the group
  gets a new array and the listener's block is freed.
\<close>

definition matches :: "world \<Rightarrow> vlc_event_callback_t \<Rightarrow> addr \<Rightarrow> addr \<Rightarrow> bool" where
  "matches w callback user_data l =
     (case listeners_mem w l of
        None \<Rightarrow> False
      | Some li \<Rightarrow> pf_callback li = callback \<and> p_user_data li = user_data)"

definition has_match :: "world \<Rightarrow> vlc_event_callback_t \<Rightarrow> addr \<Rightarrow> addr \<Rightarrow> bool" where
  "has_match w callback user_data g \<longleftrightarrow>
     (\<exists>l \<in> set (group_listeners w g). matches w callback user_data l)"

definition remove_listener :: "world \<Rightarrow> addr \<Rightarrow> addr list \<Rightarrow> addr \<Rightarrow> world" where
  "remove_listener w g ls l =
     free (w\<lparr>groups_mem := (groups_mem w)(g \<mapsto> (the (groups_mem w g))\<lparr>listeners := ls\<rparr>)\<rparr>) l"

definition detach_in :: "world \<Rightarrow> addr \<Rightarrow> vlc_event_callback_t \<Rightarrow> addr \<Rightarrow> world" where
  "detach_in w g callback user_data =
     (case List.extract (matches w callback user_data) (group_listeners w g) of
        None \<Rightarrow> w
      | Some (before, l, after) \<Rightarrow> remove_listener w g (before @ after) l)"

text \<open>
  Detaching as the specification words it: find the first group of the type; in its
  listeners find the first whose callback and user data are the ones given; remove it,
  free it and return success. With no such group, or no such listener in that group,
  report a warning and return the error.
\<close>

definition detach_spec ::
  "world \<Rightarrow> vlc_event_type_t \<Rightarrow> vlc_event_callback_t \<Rightarrow> addr \<Rightarrow> vlc_status \<times> world" where
  "detach_spec w t callback user_data =
     (case find_group w t of
        None \<Rightarrow> (VLC_EGENERIC, msg_Warn w ''Can't detach to an object event manager event'')
      | Some g \<Rightarrow>
          (case List.extract (matches w callback user_data) (group_listeners w g) of
             None \<Rightarrow>
               (VLC_EGENERIC, msg_Warn w ''Can't detach to an object event manager event'')
           | Some (before, l, after) \<Rightarrow>
               (VLC_SUCCESS, remove_listener w g (before @ after) l)))"

text \<open>
  Attaching a list of listeners (callback, user data) to a type, one call after the other,
  each of them successful.
\<close>

fun attach_all ::
  "world \<Rightarrow> vlc_event_type_t \<Rightarrow> (vlc_event_callback_t \<times> addr) list \<Rightarrow> world option" where
  "attach_all w t [] = Some w"
| "attach_all w t ((callback, user_data) # rest) =
     (case vlc_event_attach w t callback user_data of
        Some (VLC_SUCCESS, w') \<Rightarrow> attach_all w' t rest
      | _ \<Rightarrow> None)"

text \<open>The event as \<open>vlc_event_send\<close> hands it to the listeners.\<close>

definition stamped :: "world \<Rightarrow> vlc_event_t \<Rightarrow> vlc_event_t" where
  "stamped w e = e\<lparr>ev_p_obj := p_obj (em w)\<rparr>"

subsection \<open>States for the examples\<close>

text \<open>
  A manager owned by object 7 with one group, of type 5, at address 10, and two listeners
  in it: callback 1 with user data 100 at address 11, callback 2 with user data 200 at
  address 12. Callback 1 detaches itself when it is called; callback 2 does nothing.
\<close>

definition demo_world :: world where
  "demo_world =
     \<lparr>em = \<lparr>p_obj = 7, p_parent_object = 8, listeners_groups = [10]\<rparr>,
      groups_mem = [10 \<mapsto> \<lparr>event_type = 5, listeners = [11, 12]\<rparr>],
      listeners_mem = [11 \<mapsto> \<lparr>p_user_data = 100, pf_callback = 1\<rparr>,
                       12 \<mapsto> \<lparr>p_user_data = 200, pf_callback = 2\<rparr>],
      free_list = [13, 14, 15],
      msgs = [],
      calls = []\<rparr>"

definition demo_event :: "vlc_event_type_t \<Rightarrow> vlc_event_t" where
  "demo_event t = \<lparr>ev_type = t, ev_p_obj = 0, ev_u = 42\<rparr>"

definition demo_prog :: prog where
  "demo_prog f e d = (if f = 1 then Call_detach 5 1 100 (\<lambda>r. Return) else Return)"

definition quiet_prog :: prog where
  "quiet_prog f e d = Return"

text \<open>
  The same manager after its type 5 has been registered a second time: a second group of
  type 5, at address 13, after the first. And the empty state the manager starts from.
\<close>

definition dup_world :: world where
  "dup_world = snd (vlc_event_manager_register_event_type demo_world 5)"

definition blank_world :: world where
  "blank_world =
     \<lparr>em = \<lparr>p_obj = 0, p_parent_object = 0, listeners_groups = []\<rparr>,
      groups_mem = Map.empty,
      listeners_mem = Map.empty,
      free_list = [10, 11, 12, 13, 14, 15],
      msgs = [],
      calls = []\<rparr>"

text \<open>
  Two more states of a manager owned by object 7 with one group, of type 5, at address 10.
  In the first the group has one listener, callback 1 with user data 100 at address 11.
  In the second it has that listener twice, at the addresses 11 and 12.
\<close>

definition solo_world :: world where
  "solo_world =
     \<lparr>em = \<lparr>p_obj = 7, p_parent_object = 8, listeners_groups = [10]\<rparr>,
      groups_mem = [10 \<mapsto> \<lparr>event_type = 5, listeners = [11]\<rparr>],
      listeners_mem = [11 \<mapsto> \<lparr>p_user_data = 100, pf_callback = 1\<rparr>],
      free_list = [12, 13, 14, 15],
      msgs = [],
      calls = []\<rparr>"

definition twin_world :: world where
  "twin_world =
     \<lparr>em = \<lparr>p_obj = 7, p_parent_object = 8, listeners_groups = [10]\<rparr>,
      groups_mem = [10 \<mapsto> \<lparr>event_type = 5, listeners = [11, 12]\<rparr>],
      listeners_mem = [11 \<mapsto> \<lparr>p_user_data = 100, pf_callback = 1\<rparr>,
                       12 \<mapsto> \<lparr>p_user_data = 100, pf_callback = 1\<rparr>],
      free_list = [13, 14, 15],
      msgs = [],
      calls = []\<rparr>"

section \<open>Properties\<close>

declare attach_groups.simps [simp del]
declare detach_listeners.simps [simp del]
declare detach_groups.simps [simp del]
declare send_listeners.simps [simp del]
declare send_groups.simps [simp del]
declare vlc_event_send.simps [simp del]

subsection \<open>The search for the group of a type\<close>

lemma valid_world_nth_group:
  assumes "valid_world w" and "i < length (listeners_groups (em w))"
  shows "\<exists>grp. groups_mem w (listeners_groups (em w) ! i) = Some grp"
  using assms by (auto simp: valid_world_def all_set_conv_all_nth)

lemma send_groups_find:
  assumes "valid_world w"
  shows "send_groups prog n i e w =
     (case find (\<lambda>g. type_of_group w g = Some (ev_type e)) (drop i (listeners_groups (em w))) of
        None \<Rightarrow> Some w
      | Some g \<Rightarrow> send_listeners prog n g 0 e w)"
proof (induction "length (listeners_groups (em w)) - i" arbitrary: i)
  case 0
  then show ?case by (simp add: send_groups.simps)
next
  case (Suc k)
  then have lt: "i < length (listeners_groups (em w))" by simp
  then have d: "drop i (listeners_groups (em w)) =
      listeners_groups (em w) ! i # drop (Suc i) (listeners_groups (em w))"
    by (simp add: Cons_nth_drop_Suc)
  from valid_world_nth_group [OF assms lt]
  obtain grp where g: "groups_mem w (listeners_groups (em w) ! i) = Some grp" ..
  have ih: "send_groups prog n (Suc i) e w =
     (case find (\<lambda>g. type_of_group w g = Some (ev_type e))
             (drop (Suc i) (listeners_groups (em w))) of
        None \<Rightarrow> Some w
      | Some g \<Rightarrow> send_listeners prog n g 0 e w)"
    using Suc by simp
  show ?case
    by (subst send_groups.simps) (simp add: lt d g ih type_of_group_def)
qed

lemma vlc_event_send_find:
  assumes "valid_world w"
  shows "vlc_event_send prog n e w =
     (case find_group w (ev_type e) of
        None \<Rightarrow> Some (stamped w e, w)
      | Some g \<Rightarrow> map_option (Pair (stamped w e)) (send_listeners prog n g 0 (stamped w e) w))"
  by (simp add: vlc_event_send.simps send_groups_find [OF assms] find_group_def Let_def
        stamped_def split: option.splits)

lemma valid_demo_world: "valid_world demo_world"
  by (simp add: valid_world_def demo_world_def group_listeners_def)

lemma find_group_demo_world: "find_group demo_world t = (if t = 5 then Some 10 else None)"
  by (simp add: find_group_def demo_world_def type_of_group_def)

subsection \<open>The states of the manager\<close>

lemma valid_world_distinct_groups:
  "valid_world w \<Longrightarrow> distinct (listeners_groups (em w))"
  unfolding valid_world_def by blast

lemma valid_world_group:
  "valid_world w \<Longrightarrow> g \<in> set (listeners_groups (em w)) \<Longrightarrow> \<exists>grp. groups_mem w g = Some grp"
  unfolding valid_world_def by blast

lemma valid_world_distinct_listeners:
  "valid_world w \<Longrightarrow> g \<in> set (listeners_groups (em w)) \<Longrightarrow> distinct (group_listeners w g)"
  unfolding valid_world_def by blast

lemma valid_world_listener:
  "valid_world w \<Longrightarrow> g \<in> set (listeners_groups (em w)) \<Longrightarrow> l \<in> set (group_listeners w g)
     \<Longrightarrow> \<exists>li. listeners_mem w l = Some li"
  unfolding valid_world_def by blast

lemma valid_world_listener_not_group:
  "valid_world w \<Longrightarrow> g \<in> set (listeners_groups (em w)) \<Longrightarrow> l \<in> set (group_listeners w g)
     \<Longrightarrow> l \<notin> set (listeners_groups (em w))"
  unfolding valid_world_def by blast

lemma valid_world_one_owner:
  "valid_world w \<Longrightarrow> g \<in> set (listeners_groups (em w)) \<Longrightarrow> l \<in> set (group_listeners w g)
     \<Longrightarrow> g' \<in> set (listeners_groups (em w)) \<Longrightarrow> g' \<noteq> g \<Longrightarrow> l \<notin> set (group_listeners w g')"
  unfolding valid_world_def by blast

lemma valid_world_distinct_free:
  "valid_world w \<Longrightarrow> distinct (free_list w)"
  unfolding valid_world_def by blast

lemma valid_world_free:
  "valid_world w \<Longrightarrow> a \<in> set (free_list w) \<Longrightarrow> groups_mem w a = None \<and> listeners_mem w a = None"
  unfolding valid_world_def by blast

lemma valid_worldI:
  assumes "distinct (listeners_groups (em w))"
    and "\<And>g. g \<in> set (listeners_groups (em w)) \<Longrightarrow> groups_mem w g \<noteq> None"
    and "\<And>g. g \<in> set (listeners_groups (em w)) \<Longrightarrow> distinct (group_listeners w g)"
    and "\<And>g l. g \<in> set (listeners_groups (em w)) \<Longrightarrow> l \<in> set (group_listeners w g)
           \<Longrightarrow> listeners_mem w l \<noteq> None"
    and "\<And>g l. g \<in> set (listeners_groups (em w)) \<Longrightarrow> l \<in> set (group_listeners w g)
           \<Longrightarrow> l \<notin> set (listeners_groups (em w))"
    and "\<And>g l g'. g \<in> set (listeners_groups (em w)) \<Longrightarrow> l \<in> set (group_listeners w g)
           \<Longrightarrow> g' \<in> set (listeners_groups (em w)) \<Longrightarrow> g' \<noteq> g
           \<Longrightarrow> l \<notin> set (group_listeners w g')"
    and "distinct (free_list w)"
    and "\<And>a. a \<in> set (free_list w) \<Longrightarrow> groups_mem w a = None"
    and "\<And>a. a \<in> set (free_list w) \<Longrightarrow> listeners_mem w a = None"
  shows "valid_world w"
  unfolding valid_world_def using assms by blast



lemma attach_groups_find:
  assumes "\<forall>g \<in> set (listeners_groups (em w)). groups_mem w g \<noteq> None"
  shows "attach_groups w i t l =
     (case find (\<lambda>g. type_of_group w g = Some t) (drop i (listeners_groups (em w))) of
        None \<Rightarrow>
          Some (VLC_EGENERIC,
                free (msg_Err w ''Can't attach to an object event manager event'') l)
      | Some g \<Rightarrow>
          Some (VLC_SUCCESS,
                w\<lparr>groups_mem := (groups_mem w)(g \<mapsto>
                     (the (groups_mem w g))\<lparr>listeners := group_listeners w g @ [l]\<rparr>)\<rparr>))"
proof (induction "length (listeners_groups (em w)) - i" arbitrary: i)
  case 0
  then show ?case by (simp add: attach_groups.simps)
next
  case (Suc k)
  then have lt: "i < length (listeners_groups (em w))" by simp
  then have d: "drop i (listeners_groups (em w)) =
      listeners_groups (em w) ! i # drop (Suc i) (listeners_groups (em w))"
    by (simp add: Cons_nth_drop_Suc)
  from assms lt obtain grp where g: "groups_mem w (listeners_groups (em w) ! i) = Some grp"
    by (auto simp: all_set_conv_all_nth)
  have ih: "attach_groups w (Suc i) t l =
     (case find (\<lambda>g. type_of_group w g = Some t) (drop (Suc i) (listeners_groups (em w))) of
        None \<Rightarrow>
          Some (VLC_EGENERIC,
                free (msg_Err w ''Can't attach to an object event manager event'') l)
      | Some g \<Rightarrow>
          Some (VLC_SUCCESS,
                w\<lparr>groups_mem := (groups_mem w)(g \<mapsto>
                     (the (groups_mem w g))\<lparr>listeners := group_listeners w g @ [l]\<rparr>)\<rparr>))"
    using Suc by simp
  show ?case
    by (subst attach_groups.simps)
       (simp add: lt d g ih type_of_group_def group_listeners_def ARRAY_APPEND_def)
qed

text \<open>What attach does in a valid world with memory left.\<close>

lemma vlc_event_attach_found:
  assumes v: "valid_world w" and fl: "free_list w = a # rest"
    and f: "find_group w t = Some g"
  shows "vlc_event_attach w t cb d =
     Some (VLC_SUCCESS,
           w\<lparr>free_list := rest,
             listeners_mem := (listeners_mem w)(a \<mapsto> \<lparr>p_user_data = d, pf_callback = cb\<rparr>),
             groups_mem := (groups_mem w)(g \<mapsto>
                (the (groups_mem w g))\<lparr>listeners := group_listeners w g @ [a]\<rparr>)\<rparr>)"
proof -
  let ?w2 = "w\<lparr>free_list := rest,
      listeners_mem := (listeners_mem w)(a \<mapsto> \<lparr>p_user_data = d, pf_callback = cb\<rparr>)\<rparr>"
  have gv: "\<forall>g \<in> set (listeners_groups (em ?w2)). groups_mem ?w2 g \<noteq> None"
    using v by (simp add: valid_world_def)
  have "vlc_event_attach w t cb d = attach_groups ?w2 0 t a"
    by (simp add: vlc_event_attach_def malloc_def fl)
  also have "\<dots> = Some (VLC_SUCCESS,
           ?w2\<lparr>groups_mem := (groups_mem ?w2)(g \<mapsto>
                (the (groups_mem ?w2 g))\<lparr>listeners := group_listeners ?w2 g @ [a]\<rparr>)\<rparr>)"
    using f by (simp add: attach_groups_find [OF gv] find_group_def type_of_group_def
         group_listeners_def)
  finally show ?thesis by (simp add: group_listeners_def)
qed

lemma vlc_event_attach_unknown:
  assumes v: "valid_world w" and fl: "free_list w = a # rest"
    and f: "find_group w t = None"
  shows "vlc_event_attach w t cb d =
     Some (VLC_EGENERIC,
           w\<lparr>msgs := msgs w @ [(Msg_Err, ''Can't attach to an object event manager event'')]\<rparr>)"
proof -
  let ?w2 = "w\<lparr>free_list := rest,
      listeners_mem := (listeners_mem w)(a \<mapsto> \<lparr>p_user_data = d, pf_callback = cb\<rparr>)\<rparr>"
  have gv: "\<forall>g \<in> set (listeners_groups (em ?w2)). groups_mem ?w2 g \<noteq> None"
    using v by (simp add: valid_world_def)
  have a: "groups_mem w a = None" "listeners_mem w a = None"
    using v fl by (simp_all add: valid_world_def)
  have "vlc_event_attach w t cb d = attach_groups ?w2 0 t a"
    by (simp add: vlc_event_attach_def malloc_def fl)
  also have "\<dots> = Some (VLC_EGENERIC,
                free (msg_Err ?w2 ''Can't attach to an object event manager event'') a)"
    using f by (simp add: attach_groups_find [OF gv] find_group_def type_of_group_def)
  also have "free (msg_Err ?w2 ''Can't attach to an object event manager event'') a =
     w\<lparr>msgs := msgs w @ [(Msg_Err, ''Can't attach to an object event manager event'')]\<rparr>"
    using a fl by (simp add: free_def msg_Err_def fun_upd_idem)
  finally show ?thesis .
qed

lemma vlc_event_attach_nomem:
  "free_list w = [] \<Longrightarrow> vlc_event_attach w t cb d = Some (VLC_ENOMEM, w)"
  by (simp add: vlc_event_attach_def malloc_def)



lemma detach_listeners_scan:
  assumes g: "groups_mem w g = Some grp"
    and lv: "\<forall>l \<in> set (listeners grp). listeners_mem w l \<noteq> None"
  shows "detach_listeners w g i cb d =
     (case dropWhile (Not \<circ> matches w cb d) (drop i (listeners grp)) of
        [] \<Rightarrow> Scan_end
      | l # after \<Rightarrow>
          Scan_return (remove_listener w g
            (take i (listeners grp) @
             takeWhile (Not \<circ> matches w cb d) (drop i (listeners grp)) @ after) l))"
proof (induction "length (listeners grp) - i" arbitrary: i)
  case 0
  then show ?case by (subst detach_listeners.simps) (simp add: g)
next
  case (Suc k)
  let ?ls = "listeners grp"
  from Suc have lt: "i < length ?ls" by simp
  then have d: "drop i ?ls = ?ls ! i # drop (Suc i) ?ls"
    by (simp add: Cons_nth_drop_Suc)
  from lv lt obtain li where li: "listeners_mem w (?ls ! i) = Some li"
    by (auto simp: all_set_conv_all_nth)
  have ih: "detach_listeners w g (Suc i) cb d =
     (case dropWhile (Not \<circ> matches w cb d) (drop (Suc i) ?ls) of
        [] \<Rightarrow> Scan_end
      | l # after \<Rightarrow>
          Scan_return (remove_listener w g
            (take (Suc i) ?ls @
             takeWhile (Not \<circ> matches w cb d) (drop (Suc i) ?ls) @ after) l))"
    using Suc by simp
  show ?case
  proof (cases "matches w cb d (?ls ! i)")
    case True
    then show ?thesis
      using li
      by (subst detach_listeners.simps)
         (simp add: g lt d matches_def remove_listener_def ARRAY_REMOVE_def)
  next
    case False
    then have c: "\<not> (pf_callback li = cb \<and> p_user_data li = d)"
      using li by (simp add: matches_def)
    have "detach_listeners w g i cb d = detach_listeners w g (Suc i) cb d"
      using c by (subst detach_listeners.simps) (auto simp add: g lt li)
    also note ih
    also have "(case dropWhile (Not \<circ> matches w cb d) (drop (Suc i) ?ls) of
        [] \<Rightarrow> Scan_end
      | l # after \<Rightarrow>
          Scan_return (remove_listener w g
            (take (Suc i) ?ls @
             takeWhile (Not \<circ> matches w cb d) (drop (Suc i) ?ls) @ after) l)) =
      (case dropWhile (Not \<circ> matches w cb d) (drop i ?ls) of
        [] \<Rightarrow> Scan_end
      | l # after \<Rightarrow>
          Scan_return (remove_listener w g
            (take i ?ls @
             takeWhile (Not \<circ> matches w cb d) (drop i ?ls) @ after) l))"
      using False by (simp add: d take_Suc_conv_app_nth [OF lt] cong: list.case_cong)
    finally show ?thesis .
  qed
qed

lemma detach_listeners_0:
  assumes g: "groups_mem w g = Some grp"
    and lv: "\<forall>l \<in> set (listeners grp). listeners_mem w l \<noteq> None"
  shows "detach_listeners w g 0 cb d =
     (if has_match w cb d g then Scan_return (detach_in w g cb d) else Scan_end)"
proof (cases "has_match w cb d g")
  case True
  then obtain l after where dw: "dropWhile (Not \<circ> matches w cb d) (listeners grp) = l # after"
    by (cases "dropWhile (Not \<circ> matches w cb d) (listeners grp)")
       (auto simp: has_match_def group_listeners_def g dropWhile_eq_Nil_conv)
  show ?thesis
    using True dw
    by (simp add: detach_listeners_scan [OF g lv] detach_in_def extract_def
         group_listeners_def g)
next
  case False
  then have "dropWhile (Not \<circ> matches w cb d) (listeners grp) = []"
    by (auto simp: has_match_def group_listeners_def g dropWhile_eq_Nil_conv)
  then show ?thesis using False by (simp add: detach_listeners_scan [OF g lv] del: dropWhile_eq_Nil_conv)
qed

lemma detach_groups_find:
  assumes v: "valid_world w"
  shows "detach_groups w i t cb d =
     (case find (\<lambda>g. type_of_group w g = Some t \<and> has_match w cb d g)
             (drop i (listeners_groups (em w))) of
        None \<Rightarrow> Some (VLC_EGENERIC, msg_Warn w ''Can't detach to an object event manager event'')
      | Some g \<Rightarrow> Some (VLC_SUCCESS, detach_in w g cb d))"
proof (induction "length (listeners_groups (em w)) - i" arbitrary: i)
  case 0
  then show ?case by (subst detach_groups.simps) simp
next
  case (Suc k)
  let ?gs = "listeners_groups (em w)"
  from Suc have lt: "i < length ?gs" by simp
  then have d: "drop i ?gs = ?gs ! i # drop (Suc i) ?gs"
    by (simp add: Cons_nth_drop_Suc)
  from lt have mem: "?gs ! i \<in> set ?gs" by simp
  from valid_world_group [OF v mem] obtain grp where g: "groups_mem w (?gs ! i) = Some grp" ..
  have lv: "\<forall>l \<in> set (listeners grp). listeners_mem w l \<noteq> None"
  proof
    fix l assume "l \<in> set (listeners grp)"
    then have "l \<in> set (group_listeners w (?gs ! i))" by (simp add: group_listeners_def g)
    from valid_world_listener [OF v mem this] show "listeners_mem w l \<noteq> None" by auto
  qed
  have ih: "detach_groups w (Suc i) t cb d =
     (case find (\<lambda>g. type_of_group w g = Some t \<and> has_match w cb d g) (drop (Suc i) ?gs) of
        None \<Rightarrow> Some (VLC_EGENERIC, msg_Warn w ''Can't detach to an object event manager event'')
      | Some g \<Rightarrow> Some (VLC_SUCCESS, detach_in w g cb d))"
    using Suc by simp
  show ?case
    by (subst detach_groups.simps)
       (simp add: lt d g ih type_of_group_def detach_listeners_0 [OF g lv])
qed

subsection \<open>Registration keeps the states valid\<close>

lemma find_conj_first:
  assumes "\<And>x. x \<in> set xs \<Longrightarrow> P x \<Longrightarrow> Q x \<Longrightarrow> find P xs = Some x"
  shows "find (\<lambda>x. P x \<and> Q x) xs =
     (case find P xs of None \<Rightarrow> None | Some x \<Rightarrow> if Q x then Some x else None)"
proof (cases "find P xs")
  case None
  then have "find (\<lambda>x. P x \<and> Q x) xs = None" by (auto simp: find_None_iff)
  with None show ?thesis by simp
next
  case (Some x0)
  show ?thesis
  proof (cases "Q x0")
    case True
    with Some have "find (\<lambda>x. P x \<and> Q x) xs = Some x0"
      by (auto simp: find_Some_iff)
    with Some True show ?thesis by simp
  next
    case False
    have "find (\<lambda>x. P x \<and> Q x) xs = None"
    proof (rule ccontr)
      assume "find (\<lambda>x. P x \<and> Q x) xs \<noteq> None"
      then obtain y where y: "find (\<lambda>x. P x \<and> Q x) xs = Some y" by auto
      then have "y \<in> set xs" "P y" "Q y" by (auto simp: find_Some_iff)
      from assms [OF this] Some False \<open>Q y\<close> show False by simp
    qed
    with Some False show ?thesis by simp
  qed
qed

lemma register_result:
  "free_list w = a # rest \<Longrightarrow>
   vlc_event_manager_register_event_type w t =
     (VLC_SUCCESS,
      w\<lparr>free_list := rest,
        groups_mem := (groups_mem w)(a \<mapsto> \<lparr>event_type = t, listeners = []\<rparr>),
        em := (em w)\<lparr>listeners_groups := listeners_groups (em w) @ [a]\<rparr>\<rparr>)"
  by (simp add: vlc_event_manager_register_event_type_def malloc_def ARRAY_APPEND_def)

lemma register_nomem:
  "free_list w = [] \<Longrightarrow> vlc_event_manager_register_event_type w t = (VLC_ENOMEM, w)"
  by (simp add: vlc_event_manager_register_event_type_def malloc_def)

lemma valid_world_register:
  assumes v: "valid_world w"
  shows "valid_world (snd (vlc_event_manager_register_event_type w t))"
proof (cases "free_list w")
  case Nil
  then show ?thesis using v by (simp add: register_nomem)
next
  case (Cons a rest)
  let ?w' = "w\<lparr>free_list := rest,
        groups_mem := (groups_mem w)(a \<mapsto> \<lparr>event_type = t, listeners = []\<rparr>),
        em := (em w)\<lparr>listeners_groups := listeners_groups (em w) @ [a]\<rparr>\<rparr>"
  have a: "groups_mem w a = None" "listeners_mem w a = None"
    using valid_world_free [OF v, of a] Cons by simp_all
  have a_gs: "a \<notin> set (listeners_groups (em w))"
    using valid_world_group [OF v, of a] a by auto
  have d: "distinct (a # rest)" using valid_world_distinct_free [OF v] Cons by simp
  have gl: "\<And>g. group_listeners ?w' g = (if g = a then [] else group_listeners w g)"
    by (simp add: group_listeners_def)
  have "valid_world ?w'"
  proof (rule valid_worldI)
    show "distinct (listeners_groups (em ?w'))"
      using valid_world_distinct_groups [OF v] a_gs by simp
    show "groups_mem ?w' g \<noteq> None" if "g \<in> set (listeners_groups (em ?w'))" for g
      using that valid_world_group [OF v, of g] by auto
    show "distinct (group_listeners ?w' g)" if "g \<in> set (listeners_groups (em ?w'))" for g
      using that valid_world_distinct_listeners [OF v, of g] by (auto simp: gl)
    show "listeners_mem ?w' l \<noteq> None"
      if "g \<in> set (listeners_groups (em ?w'))" "l \<in> set (group_listeners ?w' g)" for g l
      using that valid_world_listener [OF v, of g l] by (auto simp: gl split: if_splits)
    show "l \<notin> set (listeners_groups (em ?w'))"
      if "g \<in> set (listeners_groups (em ?w'))" "l \<in> set (group_listeners ?w' g)" for g l
      using that valid_world_listener_not_group [OF v, of g l]
        valid_world_listener [OF v, of g l] a
      by (auto simp: gl split: if_splits)
    show "l \<notin> set (group_listeners ?w' g')"
      if "g \<in> set (listeners_groups (em ?w'))" "l \<in> set (group_listeners ?w' g)"
        "g' \<in> set (listeners_groups (em ?w'))" "g' \<noteq> g" for g l g'
      using that valid_world_one_owner [OF v, of g l g']
      by (auto simp: gl split: if_splits)
    show "distinct (free_list ?w')" using d by simp
    show "groups_mem ?w' x = None" if "x \<in> set (free_list ?w')" for x
      using that d valid_world_free [OF v, of x] Cons by auto
    show "listeners_mem ?w' x = None" if "x \<in> set (free_list ?w')" for x
      using that d valid_world_free [OF v, of x] Cons by auto
  qed
  then show ?thesis by (simp add: register_result [OF Cons])
qed

subsection \<open>Attaching keeps the states valid\<close>

lemma find_group_SomeD:
  assumes "find_group w t = Some g"
  shows "g \<in> set (listeners_groups (em w))" and "type_of_group w g = Some t"
  using assms by (auto simp: find_group_def find_Some_iff)

lemma valid_world_msgs [simp]: "valid_world (w\<lparr>msgs := m\<rparr>) = valid_world w"
  by (simp add: valid_world_def group_listeners_def)

lemma valid_world_calls [simp]: "valid_world (w\<lparr>calls := c\<rparr>) = valid_world w"
  by (simp add: valid_world_def group_listeners_def)

lemma valid_world_attach_found:
  assumes v: "valid_world w" and fl: "free_list w = a # rest"
    and f: "find_group w t = Some g"
  shows "valid_world
     (w\<lparr>free_list := rest,
        listeners_mem := (listeners_mem w)(a \<mapsto> li),
        groups_mem := (groups_mem w)(g \<mapsto>
           (the (groups_mem w g))\<lparr>listeners := group_listeners w g @ [a]\<rparr>)\<rparr>)"
    (is "valid_world ?w'")
proof -
  note g_in = find_group_SomeD(1) [OF f]
  have a: "groups_mem w a = None" "listeners_mem w a = None"
    using valid_world_free [OF v, of a] fl by simp_all
  have a_gs: "a \<notin> set (listeners_groups (em w))"
    using valid_world_group [OF v, of a] a by auto
  have a_gl: "a \<notin> set (group_listeners w g')" if "g' \<in> set (listeners_groups (em w))" for g'
    using valid_world_listener [OF v that, of a] a by auto
  have d: "distinct (a # rest)" using valid_world_distinct_free [OF v] fl by simp
  have gs: "listeners_groups (em ?w') = listeners_groups (em w)" by simp
  have gl: "\<And>g'. group_listeners ?w' g' =
      (if g' = g then group_listeners w g @ [a] else group_listeners w g')"
    by (simp add: group_listeners_def)
  show ?thesis
  proof (rule valid_worldI; (unfold gs)?)
    show "distinct (listeners_groups (em w))" by (rule valid_world_distinct_groups [OF v])
    show "groups_mem ?w' g' \<noteq> None" if "g' \<in> set (listeners_groups (em w))" for g'
      using that valid_world_group [OF v, of g'] by auto
    show "distinct (group_listeners ?w' g')" if "g' \<in> set (listeners_groups (em w))" for g'
      using that valid_world_distinct_listeners [OF v, of g'] a_gl [of g'] by (auto simp: gl)
    show "listeners_mem ?w' l \<noteq> None"
      if "g' \<in> set (listeners_groups (em w))" "l \<in> set (group_listeners ?w' g')" for g' l
      using that valid_world_listener [OF v, of g' l] by (auto simp: gl split: if_splits)
    show "l \<notin> set (listeners_groups (em w))"
      if "g' \<in> set (listeners_groups (em w))" "l \<in> set (group_listeners ?w' g')" for g' l
      using that valid_world_listener_not_group [OF v, of g' l] a_gs
      by (auto simp: gl split: if_splits)
    show "l \<notin> set (group_listeners ?w' g'')"
      if "g' \<in> set (listeners_groups (em w))" "l \<in> set (group_listeners ?w' g')"
        "g'' \<in> set (listeners_groups (em w))" "g'' \<noteq> g'" for g' l g''
      using that valid_world_one_owner [OF v, of g' l g''] a_gl [of g'] a_gl [of g'']
      by (auto simp: gl split: if_splits)
    show "distinct (free_list ?w')" using d by simp
    show "groups_mem ?w' x = None" if "x \<in> set (free_list ?w')" for x
      using that d valid_world_free [OF v, of x] fl valid_world_group [OF v g_in] by auto
    show "listeners_mem ?w' x = None" if "x \<in> set (free_list ?w')" for x
      using that d valid_world_free [OF v, of x] fl by auto
  qed
qed

lemma vlc_event_attach_cases:
  assumes v: "valid_world w"
  obtains (nomem) "free_list w = []" "vlc_event_attach w t cb d = Some (VLC_ENOMEM, w)"
  | (unknown) a rest where "free_list w = a # rest" "find_group w t = None"
      "vlc_event_attach w t cb d =
         Some (VLC_EGENERIC,
           w\<lparr>msgs := msgs w @ [(Msg_Err, ''Can't attach to an object event manager event'')]\<rparr>)"
  | (found) a rest g where "free_list w = a # rest" "find_group w t = Some g"
      "vlc_event_attach w t cb d =
         Some (VLC_SUCCESS,
           w\<lparr>free_list := rest,
             listeners_mem := (listeners_mem w)(a \<mapsto> \<lparr>p_user_data = d, pf_callback = cb\<rparr>),
             groups_mem := (groups_mem w)(g \<mapsto>
                (the (groups_mem w g))\<lparr>listeners := group_listeners w g @ [a]\<rparr>)\<rparr>)"
proof (cases "free_list w")
  case Nil
  then show ?thesis using nomem vlc_event_attach_nomem by simp
next
  case (Cons a rest)
  show ?thesis
  proof (cases "find_group w t")
    case None
    from unknown [OF Cons None vlc_event_attach_unknown [OF v Cons None]] show ?thesis .
  next
    case (Some g)
    from found [OF Cons Some vlc_event_attach_found [OF v Cons Some]] show ?thesis .
  qed
qed

lemma valid_world_attach:
  assumes v: "valid_world w" and r: "vlc_event_attach w t cb d = Some (r, w')"
  shows "valid_world w'"
  using v
proof (cases rule: vlc_event_attach_cases [where t = t and cb = cb and d = d])
  case nomem
  with r v show ?thesis by simp
next
  case (unknown a rest)
  with r v show ?thesis by auto
next
  case (found a rest g)
  with r valid_world_attach_found [OF v found(1,2)] show ?thesis by auto
qed

lemma vlc_event_attach_returns:
  assumes v: "valid_world w"
  shows "\<exists>r w'. vlc_event_attach w t cb d = Some (r, w')"
  using v by (cases rule: vlc_event_attach_cases [where t = t and cb = cb and d = d]) auto

subsection \<open>Detaching keeps the states valid\<close>

lemma valid_world_remove_listener:
  assumes v: "valid_world w" and g_in: "g \<in> set (listeners_groups (em w))"
    and ls: "group_listeners w g = before @ l # after"
  shows "valid_world (remove_listener w g (before @ after) l)" (is "valid_world ?w'")
proof -
  from valid_world_group [OF v g_in] obtain grp where grp: "groups_mem w g = Some grp" ..
  have l_in: "l \<in> set (group_listeners w g)" by (simp add: ls)
  have l_gs: "l \<notin> set (listeners_groups (em w))"
    by (rule valid_world_listener_not_group [OF v g_in l_in])
  then have lg: "l \<noteq> g" using g_in by auto
  have dl: "distinct (before @ l # after)"
    using valid_world_distinct_listeners [OF v g_in] by (simp add: ls)
  have l_mem: "listeners_mem w l \<noteq> None" using valid_world_listener [OF v g_in l_in] by auto
  have l_free: "l \<notin> set (free_list w)" using valid_world_free [OF v, of l] l_mem by auto
  have gs: "listeners_groups (em ?w') = listeners_groups (em w)"
    by (simp add: remove_listener_def free_def)
  have gm: "\<And>g'. g' \<noteq> l \<Longrightarrow> groups_mem ?w' g' =
      (if g' = g then Some (grp\<lparr>listeners := before @ after\<rparr>) else groups_mem w g')"
    by (simp add: remove_listener_def free_def grp)
  have gl: "\<And>g'. g' \<noteq> l \<Longrightarrow> group_listeners ?w' g' =
      (if g' = g then before @ after else group_listeners w g')"
    by (simp add: group_listeners_def gm)
  have lm: "listeners_mem ?w' = (listeners_mem w)(l := None)"
    by (simp add: remove_listener_def free_def)
  have fl: "free_list ?w' = l # free_list w"
    by (simp add: remove_listener_def free_def)
  have ne: "g' \<noteq> l" if "g' \<in> set (listeners_groups (em w))" for g'
    using that l_gs by auto
  show ?thesis
  proof (rule valid_worldI; (unfold gs)?)
    show "distinct (listeners_groups (em w))" by (rule valid_world_distinct_groups [OF v])
    show "groups_mem ?w' g' \<noteq> None" if "g' \<in> set (listeners_groups (em w))" for g'
      using that valid_world_group [OF v, of g'] ne [of g'] by (auto simp: gm)
    show "distinct (group_listeners ?w' g')" if "g' \<in> set (listeners_groups (em w))" for g'
      using that valid_world_distinct_listeners [OF v, of g'] ne [of g'] dl
      by (auto simp: gl)
    show "listeners_mem ?w' x \<noteq> None"
      if "g' \<in> set (listeners_groups (em w))" "x \<in> set (group_listeners ?w' g')" for g' x
    proof -
      have "x \<in> set (group_listeners w g')" using that ne [of g'] ls
        by (auto simp: gl split: if_splits)
      moreover have "x \<noteq> l"
        using that ne [of g'] dl valid_world_one_owner [OF v g_in l_in, of g']
        by (auto simp: gl split: if_splits)
      ultimately show ?thesis
        using valid_world_listener [OF v that(1), of x] by (auto simp: lm)
    qed
    show "x \<notin> set (listeners_groups (em w))"
      if "g' \<in> set (listeners_groups (em w))" "x \<in> set (group_listeners ?w' g')" for g' x
    proof -
      have "x \<in> set (group_listeners w g')" using that ne [of g'] ls
        by (auto simp: gl split: if_splits)
      then show ?thesis by (rule valid_world_listener_not_group [OF v that(1)])
    qed
    show "x \<notin> set (group_listeners ?w' g'')"
      if "g' \<in> set (listeners_groups (em w))" "x \<in> set (group_listeners ?w' g')"
        "g'' \<in> set (listeners_groups (em w))" "g'' \<noteq> g'" for g' x g''
    proof -
      have "x \<in> set (group_listeners w g')" using that ne [of g'] ls
        by (auto simp: gl split: if_splits)
      then have "x \<notin> set (group_listeners w g'')"
        by (rule valid_world_one_owner [OF v that(1) _ that(3,4)])
      then show ?thesis using ne [OF that(3)] ls by (auto simp: gl split: if_splits)
    qed
    show "distinct (free_list ?w')"
      using valid_world_distinct_free [OF v] l_free by (simp add: fl)
    show "groups_mem ?w' x = None" if "x \<in> set (free_list ?w')" for x
    proof (cases "x = l")
      case True
      then show ?thesis by (simp add: remove_listener_def free_def)
    next
      case False
      with that have "x \<in> set (free_list w)" by (simp add: fl)
      then have "groups_mem w x = None" using valid_world_free [OF v] by blast
      with grp False show ?thesis by (auto simp: gm)
    qed
    show "listeners_mem ?w' x = None" if "x \<in> set (free_list ?w')" for x
      using that valid_world_free [OF v, of x] by (auto simp: lm fl)
  qed
qed

lemma has_match_extract:
  assumes "has_match w cb d g"
  obtains before l after where
    "List.extract (matches w cb d) (group_listeners w g) = Some (before, l, after)"
    "group_listeners w g = before @ l # after" "matches w cb d l"
    "\<forall>x \<in> set before. \<not> matches w cb d x"
proof -
  from assms have "List.extract (matches w cb d) (group_listeners w g) \<noteq> None"
    by (auto simp: has_match_def extract_None_iff)
  then obtain before l after where
    e: "List.extract (matches w cb d) (group_listeners w g) = Some (before, l, after)"
    by auto
  then show ?thesis using that by (auto simp: extract_Some_iff)
qed

lemma no_match_extract:
  "\<not> has_match w cb d g \<Longrightarrow> List.extract (matches w cb d) (group_listeners w g) = None"
  by (auto simp: has_match_def extract_None_iff)

lemma valid_world_detach_in:
  assumes v: "valid_world w" and g_in: "g \<in> set (listeners_groups (em w))"
    and m: "has_match w cb d g"
  shows "valid_world (detach_in w g cb d)"
proof -
  from m obtain before l after where
    e: "List.extract (matches w cb d) (group_listeners w g) = Some (before, l, after)"
    and ls: "group_listeners w g = before @ l # after"
    by (rule has_match_extract)
  show ?thesis
    using valid_world_remove_listener [OF v g_in ls] by (simp add: detach_in_def e)
qed

lemma vlc_event_detach_cases:
  assumes v: "valid_world w"
  obtains (missing)
      "find (\<lambda>g. type_of_group w g = Some t \<and> has_match w cb d g) (listeners_groups (em w)) = None"
      "vlc_event_detach w t cb d =
         Some (VLC_EGENERIC, msg_Warn w ''Can't detach to an object event manager event'')"
  | (removed) g where "g \<in> set (listeners_groups (em w))" "type_of_group w g = Some t"
      "has_match w cb d g"
      "find (\<lambda>g. type_of_group w g = Some t \<and> has_match w cb d g) (listeners_groups (em w)) = Some g"
      "vlc_event_detach w t cb d = Some (VLC_SUCCESS, detach_in w g cb d)"
proof (cases "find (\<lambda>g. type_of_group w g = Some t \<and> has_match w cb d g)
                (listeners_groups (em w))")
  case None
  then show ?thesis
    using missing by (simp add: vlc_event_detach_def detach_groups_find [OF v])
next
  case (Some g)
  then have "g \<in> set (listeners_groups (em w))" "type_of_group w g = Some t" "has_match w cb d g"
    by (auto simp: find_Some_iff)
  then show ?thesis
    using removed [of g] Some by (simp add: vlc_event_detach_def detach_groups_find [OF v])
qed

lemma valid_world_detach:
  assumes v: "valid_world w" and r: "vlc_event_detach w t cb d = Some (r, w')"
  shows "valid_world w'"
  using v
proof (cases rule: vlc_event_detach_cases [where t = t and cb = cb and d = d])
  case missing
  with r v show ?thesis by (auto simp: msg_Warn_def)
next
  case (removed g)
  with r valid_world_detach_in [OF v removed(1,3)] show ?thesis by auto
qed

lemma vlc_event_detach_returns:
  assumes v: "valid_world w"
  shows "\<exists>r w'. vlc_event_detach w t cb d = Some (r, w')"
  using v by (cases rule: vlc_event_detach_cases [where t = t and cb = cb and d = d]) auto

subsection \<open>Only the first group of a type has listeners\<close>

lemma first_owns_alt:
  "first_owns w \<longleftrightarrow>
     (\<forall>g \<in> set (listeners_groups (em w)). \<forall>t.
        group_listeners w g \<noteq> [] \<longrightarrow> type_of_group w g = Some t \<longrightarrow> find_group w t = Some g)"
  unfolding first_owns_def group_listeners_def type_of_group_def
  by (auto split: option.splits)

lemma find_group_same:
  assumes "listeners_groups (em w') = listeners_groups (em w)"
    and "\<And>g. g \<in> set (listeners_groups (em w)) \<Longrightarrow> type_of_group w' g = type_of_group w g"
  shows "find_group w' t = find_group w t"
  unfolding find_group_def assms(1)
  by (rule find_cong) (simp_all add: assms(2))

lemma find_group_msgs [simp]: "find_group (w\<lparr>msgs := m\<rparr>) = find_group w"
  by (simp add: find_group_def type_of_group_def fun_eq_iff)

lemma find_group_calls [simp]: "find_group (w\<lparr>calls := c\<rparr>) = find_group w"
  by (simp add: find_group_def type_of_group_def fun_eq_iff)

lemma first_owns_msgs [simp]: "first_owns (w\<lparr>msgs := m\<rparr>) = first_owns w"
  by (simp add: first_owns_def cong: option.case_cong)

lemma first_owns_calls [simp]: "first_owns (w\<lparr>calls := c\<rparr>) = first_owns w"
  by (simp add: first_owns_def cong: option.case_cong)

lemma find_append_groups:
  "find P (xs @ ys) = (case find P xs of None \<Rightarrow> find P ys | Some x \<Rightarrow> Some x)"
  by (induction xs) auto

lemma find_group_register:
  assumes v: "valid_world w" and fl: "free_list w = a # rest"
  shows "find_group
     (w\<lparr>free_list := rest,
        groups_mem := (groups_mem w)(a \<mapsto> \<lparr>event_type = t, listeners = []\<rparr>),
        em := (em w)\<lparr>listeners_groups := listeners_groups (em w) @ [a]\<rparr>\<rparr>) t' =
     (case find_group w t' of
        Some g \<Rightarrow> Some g
      | None \<Rightarrow> if t' = t then Some a else None)" (is "find_group ?w' t' = _")
proof -
  have a: "groups_mem w a = None" using valid_world_free [OF v, of a] fl by simp
  have a_gs: "a \<notin> set (listeners_groups (em w))"
    using valid_world_group [OF v, of a] a by auto
  have "find (\<lambda>g. type_of_group ?w' g = Some t') (listeners_groups (em w)) =
        find (\<lambda>g. type_of_group w g = Some t') (listeners_groups (em w))"
    using a_gs by (intro find_cong) (auto simp: type_of_group_def)
  then show ?thesis
    by (auto simp: find_group_def find_append_groups type_of_group_def split: option.splits)
qed

lemma first_owns_register:
  assumes v: "valid_world w" and f: "first_owns w"
  shows "first_owns (snd (vlc_event_manager_register_event_type w t))"
proof (cases "free_list w")
  case Nil
  then show ?thesis using f by (simp add: register_nomem)
next
  case (Cons a rest)
  let ?w' = "w\<lparr>free_list := rest,
        groups_mem := (groups_mem w)(a \<mapsto> \<lparr>event_type = t, listeners = []\<rparr>),
        em := (em w)\<lparr>listeners_groups := listeners_groups (em w) @ [a]\<rparr>\<rparr>"
  have a: "groups_mem w a = None" using valid_world_free [OF v, of a] Cons by simp
  have a_gs: "a \<notin> set (listeners_groups (em w))"
    using valid_world_group [OF v, of a] a by auto
  have "first_owns ?w'"
    unfolding first_owns_alt
  proof (intro ballI allI impI)
    fix g t'
    assume g: "g \<in> set (listeners_groups (em ?w'))"
      and ne: "group_listeners ?w' g \<noteq> []"
      and ty: "type_of_group ?w' g = Some t'"
    from ne have ga: "g \<noteq> a" by (auto simp: group_listeners_def)
    with g have g_in: "g \<in> set (listeners_groups (em w))" by simp
    from ga ne have ne': "group_listeners w g \<noteq> []" by (simp add: group_listeners_def)
    from ga ty have ty': "type_of_group w g = Some t'" by (simp add: type_of_group_def)
    from f g_in ne' ty' have "find_group w t' = Some g" unfolding first_owns_alt by blast
    then show "find_group ?w' t' = Some g"
      by (simp add: find_group_register [OF v Cons])
  qed
  then show ?thesis by (simp add: register_result [OF Cons])
qed

lemma find_group_attach_found:
  assumes v: "valid_world w" and f: "find_group w t = Some g"
  shows "find_group
     (w\<lparr>free_list := rest,
        listeners_mem := lm,
        groups_mem := (groups_mem w)(g \<mapsto>
           (the (groups_mem w g))\<lparr>listeners := ls\<rparr>)\<rparr>) t' = find_group w t'"
proof (rule find_group_same)
  from valid_world_group [OF v find_group_SomeD(1) [OF f]]
  obtain grp where grp: "groups_mem w g = Some grp" ..
  fix g'
  show "type_of_group (w\<lparr>free_list := rest, listeners_mem := lm,
        groups_mem := (groups_mem w)(g \<mapsto> (the (groups_mem w g))\<lparr>listeners := ls\<rparr>)\<rparr>) g' =
      type_of_group w g'"
    by (simp add: type_of_group_def grp)
qed simp

lemma first_owns_attach:
  assumes v: "valid_world w" and f: "first_owns w"
    and r: "vlc_event_attach w t cb d = Some (r, w')"
  shows "first_owns w'"
  using v
proof (cases rule: vlc_event_attach_cases [where t = t and cb = cb and d = d])
  case nomem
  with r f show ?thesis by simp
next
  case (unknown a rest)
  with r f show ?thesis by auto
next
  case (found a rest g)
  let ?w' = "w\<lparr>free_list := rest,
             listeners_mem := (listeners_mem w)(a \<mapsto> \<lparr>p_user_data = d, pf_callback = cb\<rparr>),
             groups_mem := (groups_mem w)(g \<mapsto>
                (the (groups_mem w g))\<lparr>listeners := group_listeners w g @ [a]\<rparr>)\<rparr>"
  from valid_world_group [OF v find_group_SomeD(1) [OF found(2)]]
  obtain grp where grp: "groups_mem w g = Some grp" ..
  have fg: "\<And>t'. find_group ?w' t' = find_group w t'"
    by (rule find_group_attach_found [OF v found(2)])
  have "first_owns ?w'"
    unfolding first_owns_alt
  proof (intro ballI allI impI)
    fix g' t'
    assume g': "g' \<in> set (listeners_groups (em ?w'))"
      and ne: "group_listeners ?w' g' \<noteq> []"
      and ty: "type_of_group ?w' g' = Some t'"
    show "find_group ?w' t' = Some g'"
    proof (cases "g' = g")
      case True
      with ty have "t' = t"
        using find_group_SomeD(2) [OF found(2)] by (simp add: type_of_group_def grp)
      with True found(2) show ?thesis by (simp add: fg)
    next
      case False
      with ne have ne': "group_listeners w g' \<noteq> []" by (simp add: group_listeners_def)
      from False ty have ty': "type_of_group w g' = Some t'" by (simp add: type_of_group_def)
      from g' have "g' \<in> set (listeners_groups (em w))" by simp
      with f ne' ty' have "find_group w t' = Some g'" unfolding first_owns_alt by blast
      then show ?thesis by (simp add: fg)
    qed
  qed
  with r found show ?thesis by simp
qed

subsection \<open>Detaching, as the specification words it\<close>

lemma remove_listener_facts:
  assumes v: "valid_world w" and g_in: "g \<in> set (listeners_groups (em w))"
    and ls: "group_listeners w g = before @ l # after"
  shows "listeners_groups (em (remove_listener w g (before @ after) l)) = listeners_groups (em w)"
    and "\<And>g'. g' \<in> set (listeners_groups (em w)) \<Longrightarrow>
          type_of_group (remove_listener w g (before @ after) l) g' = type_of_group w g'"
    and "\<And>g'. g' \<in> set (listeners_groups (em w)) \<Longrightarrow>
          group_listeners (remove_listener w g (before @ after) l) g' =
            (if g' = g then before @ after else group_listeners w g')"
proof -
  from valid_world_group [OF v g_in] obtain grp where grp: "groups_mem w g = Some grp" ..
  have l_in: "l \<in> set (group_listeners w g)" by (simp add: ls)
  have l_gs: "l \<notin> set (listeners_groups (em w))"
    by (rule valid_world_listener_not_group [OF v g_in l_in])
  show "listeners_groups (em (remove_listener w g (before @ after) l)) = listeners_groups (em w)"
    by (simp add: remove_listener_def free_def)
  fix g' assume "g' \<in> set (listeners_groups (em w))"
  with l_gs have ne: "g' \<noteq> l" by auto
  show "type_of_group (remove_listener w g (before @ after) l) g' = type_of_group w g'"
    using ne by (simp add: remove_listener_def free_def type_of_group_def grp)
  show "group_listeners (remove_listener w g (before @ after) l) g' =
            (if g' = g then before @ after else group_listeners w g')"
    using ne by (simp add: remove_listener_def free_def group_listeners_def grp)
qed

lemma first_owns_detach_in:
  assumes v: "valid_world w" and f: "first_owns w"
    and g_in: "g \<in> set (listeners_groups (em w))" and m: "has_match w cb d g"
  shows "first_owns (detach_in w g cb d)"
proof -
  from m obtain before l after where
    e: "List.extract (matches w cb d) (group_listeners w g) = Some (before, l, after)"
    and ls: "group_listeners w g = before @ l # after"
    by (rule has_match_extract)
  let ?w' = "remove_listener w g (before @ after) l"
  note facts = remove_listener_facts [OF v g_in ls]
  have fg: "\<And>t'. find_group ?w' t' = find_group w t'"
    by (rule find_group_same) (simp_all add: facts)
  have "first_owns ?w'"
    unfolding first_owns_alt
  proof (intro ballI allI impI)
    fix g' t'
    assume "g' \<in> set (listeners_groups (em ?w'))"
      and ne: "group_listeners ?w' g' \<noteq> []"
      and ty: "type_of_group ?w' g' = Some t'"
    then have g': "g' \<in> set (listeners_groups (em w))" by (simp add: facts)
    from ne g' have "group_listeners w g' \<noteq> []" using ls by (auto simp: facts split: if_splits)
    moreover from ty g' have "type_of_group w g' = Some t'" by (simp add: facts)
    ultimately have "find_group w t' = Some g'" using f g' unfolding first_owns_alt by blast
    then show "find_group ?w' t' = Some g'" by (simp add: fg)
  qed
  then show ?thesis by (simp add: detach_in_def e)
qed

lemma first_owns_detach:
  assumes v: "valid_world w" and f: "first_owns w"
    and r: "vlc_event_detach w t cb d = Some (r, w')"
  shows "first_owns w'"
  using v
proof (cases rule: vlc_event_detach_cases [where t = t and cb = cb and d = d])
  case missing
  with r f show ?thesis by (auto simp: msg_Warn_def)
next
  case (removed g)
  with r first_owns_detach_in [OF v f removed(1,3)] show ?thesis by auto
qed

lemma find_matching_group:
  assumes v: "valid_world w" and f: "first_owns w"
  shows "find (\<lambda>g. type_of_group w g = Some t \<and> has_match w cb d g) (listeners_groups (em w)) =
     (case find_group w t of
        None \<Rightarrow> None
      | Some g \<Rightarrow> if has_match w cb d g then Some g else None)"
  unfolding find_group_def
proof (rule find_conj_first)
  fix g
  assume g: "g \<in> set (listeners_groups (em w))" and ty: "type_of_group w g = Some t"
    and m: "has_match w cb d g"
  from m have "group_listeners w g \<noteq> []" by (auto simp: has_match_def)
  with f g ty have "find_group w t = Some g" unfolding first_owns_alt by blast
  then show "find (\<lambda>g. type_of_group w g = Some t) (listeners_groups (em w)) = Some g"
    by (simp add: find_group_def)
qed

lemma detach_refines_spec:
  assumes v: "valid_world w" and f: "first_owns w"
  shows "vlc_event_detach w t cb d = Some (detach_spec w t cb d)"
proof (cases "find_group w t")
  case None
  then show ?thesis
    by (simp add: vlc_event_detach_def detach_groups_find [OF v] find_matching_group [OF v f]
          detach_spec_def)
next
  case (Some g)
  show ?thesis
  proof (cases "has_match w cb d g")
    case True
    then obtain before l after where
      e: "List.extract (matches w cb d) (group_listeners w g) = Some (before, l, after)"
      by (rule has_match_extract)
    with Some True show ?thesis
      by (simp add: vlc_event_detach_def detach_groups_find [OF v] find_matching_group [OF v f]
            detach_spec_def detach_in_def)
  next
    case False
    with Some no_match_extract [OF False] show ?thesis
      by (simp add: vlc_event_detach_def detach_groups_find [OF v] find_matching_group [OF v f]
            detach_spec_def)
  qed
qed

subsection \<open>Listeners that leave the manager alone\<close>

lemma call_of_calls [simp]: "call_of (w\<lparr>calls := c\<rparr>) = call_of w"
  by (simp add: call_of_def fun_eq_iff)

lemma quiet_calls [simp]: "quiet prog e (w\<lparr>calls := c\<rparr>) = quiet prog e w"
  by (simp add: quiet_def fun_eq_iff)

lemma send_listeners_quiet:
  assumes g: "groups_mem w g = Some grp"
    and q: "quiet prog e w (drop i (listeners grp))"
    and n: "length (listeners grp) - i \<le> n"
  shows "send_listeners prog n g i e w =
     Some (w\<lparr>calls := calls w @ map (call_of w e) (drop i (listeners grp))\<rparr>)"
  using g q n
proof (induction "length (listeners grp) - i" arbitrary: i n w)
  case 0
  then show ?case by (subst send_listeners.simps) simp
next
  case (Suc k)
  let ?ls = "listeners grp"
  from Suc.hyps have lt: "i < length ?ls" by simp
  then have d: "drop i ?ls = ?ls ! i # drop (Suc i) ?ls"
    by (simp add: Cons_nth_drop_Suc)
  from Suc.prems(2) obtain li where li: "listeners_mem w (?ls ! i) = Some li"
    and ret: "prog (pf_callback li) e (p_user_data li) = Return"
    and q': "quiet prog e w (drop (Suc i) ?ls)"
    by (auto simp: d quiet_def split: option.splits)
  from Suc.prems(3) lt obtain m where m: "n = Suc m" by (cases n) auto
  let ?w1 = "w\<lparr>calls := calls w @ [(pf_callback li, e, p_user_data li)]\<rparr>"
  have ih: "send_listeners prog m g (Suc i) e ?w1 =
     Some (?w1\<lparr>calls := calls ?w1 @ map (call_of ?w1 e) (drop (Suc i) ?ls)\<rparr>)"
  proof (rule Suc.hyps(1))
    show "k = length ?ls - Suc i" using Suc.hyps(2) by simp
    show "groups_mem ?w1 g = Some grp" using Suc.prems(1) by simp
    show "quiet prog e ?w1 (drop (Suc i) ?ls)" using q' by simp
    show "length ?ls - Suc i \<le> m" using Suc.prems(3) m by simp
  qed
  have c: "call_of w e (?ls ! i) = (pf_callback li, e, p_user_data li)"
    by (simp add: call_of_def li)
  show ?case
    by (subst send_listeners.simps)
       (simp add: Suc.prems(1) lt li m ret ih d c)
qed

lemma vlc_event_send_quiet:
  assumes v: "valid_world w" and f: "find_group w (ev_type e) = Some g"
    and q: "quiet prog (stamped w e) w (group_listeners w g)"
    and n: "length (group_listeners w g) \<le> n"
  shows "vlc_event_send prog n e w =
     Some (stamped w e,
           w\<lparr>calls := calls w @ map (call_of w (stamped w e)) (group_listeners w g)\<rparr>)"
proof -
  from valid_world_group [OF v find_group_SomeD(1) [OF f]]
  obtain grp where grp: "groups_mem w g = Some grp" ..
  have gl: "group_listeners w g = listeners grp" by (simp add: group_listeners_def grp)
  have "send_listeners prog n g 0 (stamped w e) w =
     Some (w\<lparr>calls := calls w @ map (call_of w (stamped w e)) (drop 0 (listeners grp))\<rparr>)"
    using q n by (intro send_listeners_quiet [OF grp]) (simp_all add: gl)
  then show ?thesis
    by (simp add: vlc_event_send_find [OF v] f gl)
qed

subsection \<open>Attaching listeners and sending\<close>

lemma quiet_iff_calls:
  assumes "\<forall>l \<in> set ls. listeners_mem w l \<noteq> None"
  shows "quiet prog e w ls \<longleftrightarrow>
     (\<forall>c \<in> set (map (call_of w e) ls). prog (fst c) e (snd (snd c)) = Return)"
  using assms by (auto simp: quiet_def call_of_def split: option.splits)

lemma attach_found_listeners:
  fixes cb :: vlc_event_callback_t and d :: addr
  assumes v: "valid_world w" and fl: "free_list w = a # rest"
    and f: "find_group w t = Some g"
  defines "w1 \<equiv> w\<lparr>free_list := rest,
             listeners_mem := (listeners_mem w)(a \<mapsto> \<lparr>p_user_data = d, pf_callback = cb\<rparr>),
             groups_mem := (groups_mem w)(g \<mapsto>
                (the (groups_mem w g))\<lparr>listeners := group_listeners w g @ [a]\<rparr>)\<rparr>"
  shows "group_listeners w1 g = group_listeners w g @ [a]"
    and "map (call_of w1 e) (group_listeners w1 g) =
           map (call_of w e) (group_listeners w g) @ [(cb, e, d)]"
proof -
  note g_in = find_group_SomeD(1) [OF f]
  have a: "listeners_mem w a = None" using valid_world_free [OF v, of a] fl by simp
  show gl: "group_listeners w1 g = group_listeners w g @ [a]"
    by (simp add: w1_def group_listeners_def)
  have "call_of w1 e l = call_of w e l" if "l \<in> set (group_listeners w g)" for l
  proof -
    from valid_world_listener [OF v g_in that] a have "l \<noteq> a" by auto
    then show ?thesis by (simp add: w1_def call_of_def)
  qed
  moreover have "call_of w1 e a = (cb, e, d)" by (simp add: w1_def call_of_def)
  ultimately show "map (call_of w1 e) (group_listeners w1 g) =
           map (call_of w e) (group_listeners w g) @ [(cb, e, d)]"
    by (simp add: gl)
qed

lemma attach_all_result:
  assumes "valid_world w" and "find_group w t = Some g"
    and "length xs \<le> length (free_list w)"
  shows "\<exists>w'. attach_all w t xs = Some w' \<and> valid_world w' \<and> find_group w' t = Some g \<and>
           em w' = em w \<and> calls w' = calls w \<and> msgs w' = msgs w \<and>
           group_listeners w' g = group_listeners w g @ take (length xs) (free_list w) \<and>
           free_list w' = drop (length xs) (free_list w) \<and>
           map (call_of w' e) (group_listeners w' g) =
             map (call_of w e) (group_listeners w g) @ map (\<lambda>(cb, d). (cb, e, d)) xs"
  using assms
proof (induction xs arbitrary: w)
  case Nil
  then show ?case by simp
next
  case (Cons x xs)
  obtain cb d where x: "x = (cb, d)" by (cases x)
  from Cons.prems(3) obtain a rest where fl: "free_list w = a # rest"
    by (cases "free_list w") auto
  let ?w1 = "w\<lparr>free_list := rest,
             listeners_mem := (listeners_mem w)(a \<mapsto> \<lparr>p_user_data = d, pf_callback = cb\<rparr>),
             groups_mem := (groups_mem w)(g \<mapsto>
                (the (groups_mem w g))\<lparr>listeners := group_listeners w g @ [a]\<rparr>)\<rparr>"
  have att: "vlc_event_attach w t cb d = Some (VLC_SUCCESS, ?w1)"
    by (rule vlc_event_attach_found [OF Cons.prems(1) fl Cons.prems(2)])
  have v1: "valid_world ?w1"
    by (rule valid_world_attach_found [OF Cons.prems(1) fl Cons.prems(2)])
  have f1: "find_group ?w1 t = Some g"
    by (simp add: find_group_attach_found [OF Cons.prems(1,2)] Cons.prems(2))
  have len: "length xs \<le> length (free_list ?w1)" using Cons.prems(3) fl by simp
  from Cons.IH [OF v1 f1 len] obtain w' where w':
    "attach_all ?w1 t xs = Some w'" "valid_world w'" "find_group w' t = Some g"
    "em w' = em ?w1" "calls w' = calls ?w1" "msgs w' = msgs ?w1"
    "group_listeners w' g = group_listeners ?w1 g @ take (length xs) (free_list ?w1)"
    "free_list w' = drop (length xs) (free_list ?w1)"
    "map (call_of w' e) (group_listeners w' g) =
       map (call_of ?w1 e) (group_listeners ?w1 g) @ map (\<lambda>(cb, d). (cb, e, d)) xs"
    by blast
  note facts = attach_found_listeners [OF Cons.prems(1) fl Cons.prems(2), where d = d and cb = cb]
  have "attach_all w t (x # xs) = Some w'" by (simp add: x att w'(1))
  moreover have "group_listeners w' g =
      group_listeners w g @ take (length (x # xs)) (free_list w)"
    by (simp add: w'(7) facts(1) fl)
  moreover have "free_list w' = drop (length (x # xs)) (free_list w)"
    by (simp add: w'(8) fl)
  moreover have "map (call_of w' e) (group_listeners w' g) =
      map (call_of w e) (group_listeners w g) @ map (\<lambda>(cb, d). (cb, e, d)) (x # xs)"
    by (simp add: w'(9) facts(2) x)
  ultimately show ?case using w'(2-6) by simp
qed

lemma valid_world_listeners_mem:
  assumes "valid_world w" and "g \<in> set (listeners_groups (em w))"
  shows "\<forall>l \<in> set (group_listeners w g). listeners_mem w l \<noteq> None"
  using valid_world_listener [OF assms] by auto

text \<open>Attach a list of quiet listeners, then send: old calls then new ones in order.\<close>

lemma attach_all_then_send:
  assumes v: "valid_world w" and f: "find_group w (ev_type e) = Some g"
    and len: "length xs \<le> length (free_list w)"
    and q: "quiet prog (stamped w e) w (group_listeners w g)"
    and qx: "\<forall>(cb, d) \<in> set xs. prog cb (stamped w e) d = Return"
    and n: "length (group_listeners w g) + length xs \<le> n"
  shows "\<exists>w1. attach_all w (ev_type e) xs = Some w1 \<and>
           group_listeners w1 g = group_listeners w g @ take (length xs) (free_list w) \<and>
           vlc_event_send prog n e w1 =
             Some (stamped w e,
                   w1\<lparr>calls := calls w @ map (call_of w (stamped w e)) (group_listeners w g) @
                                 map (\<lambda>(cb, d). (cb, stamped w e, d)) xs\<rparr>)"
proof -
  let ?e = "stamped w e"
  from attach_all_result [OF v f len, of ?e] obtain w1 where w1:
    "attach_all w (ev_type e) xs = Some w1" "valid_world w1" "find_group w1 (ev_type e) = Some g"
    "em w1 = em w" "calls w1 = calls w"
    "group_listeners w1 g = group_listeners w g @ take (length xs) (free_list w)"
    "map (call_of w1 ?e) (group_listeners w1 g) =
       map (call_of w ?e) (group_listeners w g) @ map (\<lambda>(cb, d). (cb, ?e, d)) xs"
    by blast
  have st: "stamped w1 e = ?e" by (simp add: stamped_def w1(4))
  have q0: "\<forall>c \<in> set (map (call_of w ?e) (group_listeners w g)).
      prog (fst c) ?e (snd (snd c)) = Return"
    using q quiet_iff_calls [OF valid_world_listeners_mem [OF v find_group_SomeD(1) [OF f]]]
    by blast
  have "\<forall>c \<in> set (map (call_of w1 ?e) (group_listeners w1 g)).
      prog (fst c) ?e (snd (snd c)) = Return"
    unfolding w1(7) using q0 qx by auto
  then have q1: "quiet prog (stamped w1 e) w1 (group_listeners w1 g)"
    unfolding st
    using quiet_iff_calls [OF valid_world_listeners_mem [OF w1(2) find_group_SomeD(1) [OF w1(3)]]]
    by blast
  have n1: "length (group_listeners w1 g) \<le> n" using n len by (simp add: w1(6))
  have "vlc_event_send prog n e w1 =
     Some (stamped w1 e,
           w1\<lparr>calls := calls w1 @ map (call_of w1 (stamped w1 e)) (group_listeners w1 g)\<rparr>)"
    by (rule vlc_event_send_quiet [OF w1(2,3) q1 n1])
  then have "vlc_event_send prog n e w1 =
     Some (?e, w1\<lparr>calls := calls w @ map (call_of w ?e) (group_listeners w g) @
                                 map (\<lambda>(cb, d). (cb, ?e, d)) xs\<rparr>)"
    unfolding st w1(5) w1(7) .
  with w1(1,6) show ?thesis by blast
qed

subsection \<open>Sending an event of a type that is not registered\<close>

text \<open>
  C4. When no group of the manager has the type of the event, \<open>vlc_event_send\<close>
  returns, whatever the callbacks and the bound, and leaves the whole state as it was:
  no listener is called (the calls are those made before), no message is sent to the
  parent object (the messages are those sent before), and the manager, its groups and
  its listeners are untouched.
\<close>

theorem send_unregistered_is_silent:
  assumes "valid_world w" and "find_group w (ev_type e) = None"
  shows "\<exists>e'. vlc_event_send prog n e w = Some (e', w)"
  using assms by (simp add: vlc_event_send_find)

theorem send_unregistered_is_silent_witness:
  "valid_world demo_world \<and> find_group demo_world (ev_type (demo_event 6)) = None \<and>
   (\<exists>e'. vlc_event_send demo_prog 0 (demo_event 6) demo_world = Some (e', demo_world))"
  using send_unregistered_is_silent [of demo_world "demo_event 6" demo_prog 0]
  by (simp add: valid_demo_world find_group_demo_world demo_event_def)

subsection \<open>The source of the event\<close>



lemma demo_world_fields:
  "free_list demo_world = [13, 14, 15]" "msgs demo_world = []" "calls demo_world = []"
  "em demo_world = \<lparr>p_obj = 7, p_parent_object = 8, listeners_groups = [10]\<rparr>"
  "group_listeners demo_world 10 = [11, 12]"
  "groups_mem demo_world 10 = Some \<lparr>event_type = 5, listeners = [11, 12]\<rparr>"
  "listeners_mem demo_world 11 = Some \<lparr>p_user_data = 100, pf_callback = 1\<rparr>"
  "listeners_mem demo_world 12 = Some \<lparr>p_user_data = 200, pf_callback = 2\<rparr>"
  by (simp_all add: demo_world_def group_listeners_def)

lemma first_owns_demo_world: "first_owns demo_world"
  by (simp add: first_owns_def find_group_demo_world demo_world_fields)

subsection \<open>Attaching to a type that is not registered\<close>

text \<open>
  C5. When no group of the manager has the type and \<open>malloc\<close> has a block to give,
  \<open>__vlc_event_attach\<close> returns \<open>VLC_EGENERIC\<close> and the state it leaves is the one it
  found but for one more error message to the parent object: the block taken for the
  listener is free again (the free list and both heaps are as before), and the manager,
  its groups and their listeners are unchanged.
\<close>

theorem attach_unknown_type_fails:
  assumes "valid_world w" and "find_group w t = None" and "free_list w \<noteq> []"
  shows "vlc_event_attach w t cb d =
     Some (VLC_EGENERIC,
           w\<lparr>msgs := msgs w @ [(Msg_Err, ''Can't attach to an object event manager event'')]\<rparr>)"
proof -
  from assms(3) obtain a rest where "free_list w = a # rest" by (cases "free_list w") auto
  from vlc_event_attach_unknown [OF assms(1) this assms(2)] show ?thesis .
qed

theorem attach_unknown_type_fails_witness:
  "valid_world demo_world \<and> find_group demo_world 6 = None \<and> free_list demo_world \<noteq> [] \<and>
   vlc_event_attach demo_world 6 3 300 =
     Some (VLC_EGENERIC,
           demo_world\<lparr>msgs := [(Msg_Err, ''Can't attach to an object event manager event'')]\<rparr>)"
  using attach_unknown_type_fails [of demo_world 6 3 300]
  by (simp add: valid_demo_world find_group_demo_world demo_world_fields)

subsection \<open>What detaching removes\<close>

text \<open>
  C2. In a state of the manager, \<open>vlc_event_detach\<close> does what the specification says
  (\<open>detach_spec\<close>). It returns \<open>VLC_EGENERIC\<close> exactly when there is no group of
  the type or the first group of the type has no listener with this callback and this
  user data, and then the state is the old one with one more warning. Otherwise it returns
  \<open>VLC_SUCCESS\<close>: the array of the first group of the type was \<open>before @ l # after\<close>,
  with \<open>l\<close> the first matching listener, and is now \<open>before @ after\<close>, so that one
  entry is gone and a second matching entry stays; the other groups keep their listeners;
  the block of \<open>l\<close> and no other is freed.
\<close>

theorem detach_removes_first_match:
  assumes v: "valid_world w" and f: "first_owns w"
  shows "vlc_event_detach w t cb d = Some (detach_spec w t cb d) \<and>
    (fst (detach_spec w t cb d) = VLC_EGENERIC \<longleftrightarrow>
       (case find_group w t of None \<Rightarrow> True | Some g \<Rightarrow> \<not> has_match w cb d g)) \<and>
    (fst (detach_spec w t cb d) = VLC_EGENERIC \<longrightarrow>
       snd (detach_spec w t cb d) =
         w\<lparr>msgs := msgs w @ [(Msg_Warn, ''Can't detach to an object event manager event'')]\<rparr>) \<and>
    (fst (detach_spec w t cb d) \<noteq> VLC_EGENERIC \<longrightarrow>
       fst (detach_spec w t cb d) = VLC_SUCCESS \<and>
       (\<exists>g before l after.
          find_group w t = Some g \<and>
          group_listeners w g = before @ l # after \<and>
          matches w cb d l \<and> (\<forall>x \<in> set before. \<not> matches w cb d x) \<and>
          group_listeners (snd (detach_spec w t cb d)) g = before @ after \<and>
          (\<forall>g' \<in> set (listeners_groups (em w)).
             g' \<noteq> g \<longrightarrow> group_listeners (snd (detach_spec w t cb d)) g' = group_listeners w g') \<and>
          listeners_mem (snd (detach_spec w t cb d)) = (listeners_mem w)(l := None) \<and>
          free_list (snd (detach_spec w t cb d)) = l # free_list w))"
proof (intro conjI)
  show "vlc_event_detach w t cb d = Some (detach_spec w t cb d)"
    by (rule detach_refines_spec [OF v f])
  show "fst (detach_spec w t cb d) = VLC_EGENERIC \<longleftrightarrow>
       (case find_group w t of None \<Rightarrow> True | Some g \<Rightarrow> \<not> has_match w cb d g)"
  proof (cases "find_group w t")
    case None
    then show ?thesis by (simp add: detach_spec_def)
  next
    case (Some g)
    show ?thesis
    proof (cases "has_match w cb d g")
      case True
      then obtain before l after where
        "List.extract (matches w cb d) (group_listeners w g) = Some (before, l, after)"
        by (rule has_match_extract)
      with Some True show ?thesis by (simp add: detach_spec_def)
    next
      case False
      with Some no_match_extract [OF False] show ?thesis by (simp add: detach_spec_def)
    qed
  qed
  show "fst (detach_spec w t cb d) = VLC_EGENERIC \<longrightarrow>
       snd (detach_spec w t cb d) =
         w\<lparr>msgs := msgs w @ [(Msg_Warn, ''Can't detach to an object event manager event'')]\<rparr>"
    by (auto simp: detach_spec_def msg_Warn_def split: option.splits)
  show "fst (detach_spec w t cb d) \<noteq> VLC_EGENERIC \<longrightarrow>
       fst (detach_spec w t cb d) = VLC_SUCCESS \<and>
       (\<exists>g before l after.
          find_group w t = Some g \<and>
          group_listeners w g = before @ l # after \<and>
          matches w cb d l \<and> (\<forall>x \<in> set before. \<not> matches w cb d x) \<and>
          group_listeners (snd (detach_spec w t cb d)) g = before @ after \<and>
          (\<forall>g' \<in> set (listeners_groups (em w)).
             g' \<noteq> g \<longrightarrow> group_listeners (snd (detach_spec w t cb d)) g' = group_listeners w g') \<and>
          listeners_mem (snd (detach_spec w t cb d)) = (listeners_mem w)(l := None) \<and>
          free_list (snd (detach_spec w t cb d)) = l # free_list w)"
  proof
    assume ne: "fst (detach_spec w t cb d) \<noteq> VLC_EGENERIC"
    then obtain g where g: "find_group w t = Some g"
      by (cases "find_group w t") (auto simp: detach_spec_def)
    from ne g obtain before l after where
      e: "List.extract (matches w cb d) (group_listeners w g) = Some (before, l, after)"
      by (cases "List.extract (matches w cb d) (group_listeners w g)")
         (auto simp: detach_spec_def)
    then have ls: "group_listeners w g = before @ l # after" and m: "matches w cb d l"
      and nm: "\<forall>x \<in> set before. \<not> matches w cb d x"
      by (auto simp: extract_Some_iff)
    have r: "detach_spec w t cb d = (VLC_SUCCESS, remove_listener w g (before @ after) l)"
      by (simp add: detach_spec_def g e)
    note g_in = find_group_SomeD(1) [OF g]
    note facts = remove_listener_facts [OF v g_in ls]
    have "group_listeners (remove_listener w g (before @ after) l) g = before @ after"
      using facts(3) [OF g_in] by simp
    moreover have "\<forall>g' \<in> set (listeners_groups (em w)).
        g' \<noteq> g \<longrightarrow> group_listeners (remove_listener w g (before @ after) l) g' =
          group_listeners w g'"
      using facts(3) by simp
    moreover have "listeners_mem (remove_listener w g (before @ after) l) =
        (listeners_mem w)(l := None)"
      by (simp add: remove_listener_def free_def)
    moreover have "free_list (remove_listener w g (before @ after) l) = l # free_list w"
      by (simp add: remove_listener_def free_def)
    ultimately show "fst (detach_spec w t cb d) = VLC_SUCCESS \<and>
       (\<exists>g before l after.
          find_group w t = Some g \<and>
          group_listeners w g = before @ l # after \<and>
          matches w cb d l \<and> (\<forall>x \<in> set before. \<not> matches w cb d x) \<and>
          group_listeners (snd (detach_spec w t cb d)) g = before @ after \<and>
          (\<forall>g' \<in> set (listeners_groups (em w)).
             g' \<noteq> g \<longrightarrow> group_listeners (snd (detach_spec w t cb d)) g' = group_listeners w g') \<and>
          listeners_mem (snd (detach_spec w t cb d)) = (listeners_mem w)(l := None) \<and>
          free_list (snd (detach_spec w t cb d)) = l # free_list w)"
      unfolding r using g ls m nm by (intro conjI exI [of _ g] exI [of _ before] exI [of _ l] exI [of _ after]) simp_all
  qed
qed

lemma detach_spec_demo:
  "detach_spec demo_world 5 2 200 = (VLC_SUCCESS, remove_listener demo_world 10 [11] 12)"
  by (simp add: detach_spec_def find_group_demo_world demo_world_fields extract_def matches_def)

lemma detach_spec_demo_missing:
  "detach_spec demo_world 5 2 100 =
     (VLC_EGENERIC,
      demo_world\<lparr>msgs := [(Msg_Warn, ''Can't detach to an object event manager event'')]\<rparr>)"
  by (simp add: detach_spec_def find_group_demo_world demo_world_fields extract_def matches_def
       msg_Warn_def)

theorem detach_removes_first_match_witness:
  "valid_world demo_world \<and> first_owns demo_world \<and>
   vlc_event_detach demo_world 5 2 200 =
     Some (VLC_SUCCESS, remove_listener demo_world 10 [11] 12) \<and>
   vlc_event_detach demo_world 5 2 100 =
     Some (VLC_EGENERIC,
           demo_world\<lparr>msgs := [(Msg_Warn, ''Can't detach to an object event manager event'')]\<rparr>)"
  using detach_removes_first_match [of demo_world 5 2 200]
    detach_removes_first_match [of demo_world 5 2 100]
  by (simp add: valid_demo_world first_owns_demo_world detach_spec_demo detach_spec_demo_missing)

subsection \<open>Attach, then send\<close>

lemma attach_all_one:
  "attach_all w t [(cb, d)] = Some w1 \<Longrightarrow> vlc_event_attach w t cb d = Some (VLC_SUCCESS, w1)"
  by (auto split: option.splits vlc_status.splits)

lemma filter_calls_new:
  assumes "\<forall>c \<in> set old. fst c \<noteq> cb" and "\<forall>c \<in> set new. fst c = cb"
  shows "filter (\<lambda>c. fst c = cb) (old @ new) = new"
proof -
  from assms(1) have "filter (\<lambda>c. fst c = cb) old = []" by (simp add: filter_empty_conv)
  moreover from assms(2) have "filter (\<lambda>c. fst c = cb) new = new" by (simp add: filter_id_conv)
  ultimately show ?thesis by simp
qed

text \<open>
  C3, as the code has it: for listeners that do not call back into the manager while they
  are called. Take a state of the manager in which the event's type is registered, \<open>malloc\<close> has
  a block to give and the listeners already attached to the type leave the manager alone,
  as does \<open>cb\<close>. Then attaching \<open>(cb, d)\<close> succeeds, and a send of the event that
  follows returns and makes the calls of the listeners that were attached before and
  then the call \<open>cb (event, d)\<close>, once, the event's object being the manager's
  \<open>p_obj\<close>. If \<open>cb\<close> was not attached to the type before, this is the only call
  of \<open>cb\<close> in that send.
\<close>

theorem attach_then_send_calls_once:
  assumes v: "valid_world w" and f: "find_group w (ev_type e) = Some g"
    and m: "free_list w \<noteq> []"
    and q: "quiet prog (stamped w e) w (group_listeners w g)"
    and qc: "prog cb (stamped w e) d = Return"
    and n: "length (group_listeners w g) < n"
  shows "\<exists>w1 w2.
    vlc_event_attach w (ev_type e) cb d = Some (VLC_SUCCESS, w1) \<and>
    vlc_event_send prog n e w1 = Some (stamped w e, w2) \<and>
    calls w2 = calls w1 @ map (call_of w (stamped w e)) (group_listeners w g) @
               [(cb, stamped w e, d)] \<and>
    ev_p_obj (stamped w e) = p_obj (em w1) \<and>
    ((\<forall>l \<in> set (group_listeners w g). fst (call_of w (stamped w e) l) \<noteq> cb) \<longrightarrow>
       filter (\<lambda>c. fst c = cb) (drop (length (calls w1)) (calls w2)) = [(cb, stamped w e, d)])"
proof -
  let ?e = "stamped w e"
  let ?old = "map (call_of w ?e) (group_listeners w g)"
  from m have len: "length [(cb, d)] \<le> length (free_list w)"
    by (cases "free_list w") auto
  from attach_all_result [OF v f len, of ?e] attach_all_then_send [OF v f len q, of n] qc n
  obtain w1 where w1: "attach_all w (ev_type e) [(cb, d)] = Some w1"
    and em1: "em w1 = em w" and c1: "calls w1 = calls w"
    and s: "vlc_event_send prog n e w1 =
       Some (?e, w1\<lparr>calls := calls w @ ?old @ map (\<lambda>(cb, d). (cb, ?e, d)) [(cb, d)]\<rparr>)"
    by auto
  let ?w2 = "w1\<lparr>calls := calls w @ ?old @ [(cb, ?e, d)]\<rparr>"
  have "vlc_event_attach w (ev_type e) cb d = Some (VLC_SUCCESS, w1)"
    by (rule attach_all_one [OF w1])
  moreover have "vlc_event_send prog n e w1 = Some (?e, ?w2)" using s by simp
  moreover have "calls ?w2 = calls w1 @ ?old @ [(cb, ?e, d)]" by (simp add: c1)
  moreover have "ev_p_obj ?e = p_obj (em w1)" by (simp add: stamped_def em1)
  moreover have "filter (\<lambda>c. fst c = cb) (drop (length (calls w1)) (calls ?w2)) = [(cb, ?e, d)]"
    if "\<forall>l \<in> set (group_listeners w g). fst (call_of w ?e l) \<noteq> cb"
    using that filter_calls_new [of ?old cb "[(cb, ?e, d)]"] by (simp add: c1)
  ultimately show ?thesis by blast
qed

lemma quiet_demo_world: "quiet quiet_prog e demo_world [11, 12]"
  by (simp add: quiet_def quiet_prog_def demo_world_def)

theorem attach_then_send_calls_once_witness:
  "valid_world demo_world \<and> find_group demo_world (ev_type (demo_event 5)) = Some 10 \<and>
   free_list demo_world \<noteq> [] \<and>
   quiet quiet_prog (stamped demo_world (demo_event 5)) demo_world (group_listeners demo_world 10) \<and>
   quiet_prog 3 (stamped demo_world (demo_event 5)) 300 = Return \<and>
   length (group_listeners demo_world 10) < 3 \<and>
   (\<exists>w1 w2.
      vlc_event_attach demo_world 5 3 300 = Some (VLC_SUCCESS, w1) \<and>
      vlc_event_send quiet_prog 3 (demo_event 5) w1 = Some (stamped demo_world (demo_event 5), w2) \<and>
      calls w2 = calls w1 @
        [(1, stamped demo_world (demo_event 5), 100), (2, stamped demo_world (demo_event 5), 200),
         (3, stamped demo_world (demo_event 5), 300)] \<and>
      ev_p_obj (stamped demo_world (demo_event 5)) = 7 \<and>
      filter (\<lambda>c. fst c = 3) (drop (length (calls w1)) (calls w2)) =
        [(3, stamped demo_world (demo_event 5), 300)])"
proof -
  have e: "ev_type (demo_event 5) = 5" by (simp add: demo_event_def)
  have h: "valid_world demo_world" "find_group demo_world (ev_type (demo_event 5)) = Some 10"
    "free_list demo_world \<noteq> []"
    "quiet quiet_prog (stamped demo_world (demo_event 5)) demo_world (group_listeners demo_world 10)"
    "quiet_prog 3 (stamped demo_world (demo_event 5)) 300 = Return"
    "length (group_listeners demo_world 10) < 3"
    by (simp_all add: valid_demo_world find_group_demo_world e quiet_demo_world
          demo_world_fields quiet_prog_def)
  from attach_then_send_calls_once [OF h]
  obtain w1 w2 where
    "vlc_event_attach demo_world (ev_type (demo_event 5)) 3 300 = Some (VLC_SUCCESS, w1)"
    "vlc_event_send quiet_prog 3 (demo_event 5) w1 = Some (stamped demo_world (demo_event 5), w2)"
    "calls w2 = calls w1 @
       map (call_of demo_world (stamped demo_world (demo_event 5))) (group_listeners demo_world 10) @
       [(3, stamped demo_world (demo_event 5), 300)]"
    "ev_p_obj (stamped demo_world (demo_event 5)) = p_obj (em w1)"
    "(\<forall>l \<in> set (group_listeners demo_world 10).
        fst (call_of demo_world (stamped demo_world (demo_event 5)) l) \<noteq> 3) \<longrightarrow>
     filter (\<lambda>c. fst c = 3) (drop (length (calls w1)) (calls w2)) =
       [(3, stamped demo_world (demo_event 5), 300)]"
    by blast
  moreover have "ev_p_obj (stamped demo_world (demo_event 5)) = 7"
    by (simp add: stamped_def demo_world_fields)
  moreover have "\<forall>l \<in> set (group_listeners demo_world 10).
        fst (call_of demo_world (stamped demo_world (demo_event 5)) l) \<noteq> 3"
    by (simp add: demo_world_fields call_of_def)
  ultimately have "\<exists>w1 w2.
      vlc_event_attach demo_world 5 3 300 = Some (VLC_SUCCESS, w1) \<and>
      vlc_event_send quiet_prog 3 (demo_event 5) w1 = Some (stamped demo_world (demo_event 5), w2) \<and>
      calls w2 = calls w1 @
        [(1, stamped demo_world (demo_event 5), 100), (2, stamped demo_world (demo_event 5), 200),
         (3, stamped demo_world (demo_event 5), 300)] \<and>
      ev_p_obj (stamped demo_world (demo_event 5)) = 7 \<and>
      filter (\<lambda>c. fst c = 3) (drop (length (calls w1)) (calls w2)) =
        [(3, stamped demo_world (demo_event 5), 300)]"
    by (auto simp: e demo_world_fields call_of_def)
  with h show ?thesis by blast
qed

subsection \<open>The same listener attached twice\<close>

text \<open>
  C7, as the code has it: for listeners that do not call back into the manager while they
  are called. Take a state of the manager in which the event's type is registered, \<open>malloc\<close> has
  two blocks to give and the listeners already attached to the type leave the manager
  alone, as does \<open>cb\<close>. Then attaching \<open>(cb, d)\<close> twice succeeds twice and puts
  two entries at the end of the group's array, at two different addresses, each holding
  \<open>(cb, d)\<close>; a send of the event that follows returns and, after the calls of the
  listeners that were attached before, calls \<open>cb (event, d)\<close> twice. If \<open>cb\<close> was
  not attached to the type before, these are the only calls of \<open>cb\<close> in that send.
\<close>

theorem attach_twice_calls_twice:
  assumes v: "valid_world w" and f: "find_group w (ev_type e) = Some g"
    and fl: "free_list w = a1 # a2 # rest"
    and q: "quiet prog (stamped w e) w (group_listeners w g)"
    and qc: "prog cb (stamped w e) d = Return"
    and n: "length (group_listeners w g) + 2 \<le> n"
  shows "\<exists>w1 w2 w3.
    vlc_event_attach w (ev_type e) cb d = Some (VLC_SUCCESS, w1) \<and>
    vlc_event_attach w1 (ev_type e) cb d = Some (VLC_SUCCESS, w2) \<and>
    group_listeners w2 g = group_listeners w g @ [a1, a2] \<and> a1 \<noteq> a2 \<and>
    listeners_mem w2 a1 = Some \<lparr>p_user_data = d, pf_callback = cb\<rparr> \<and>
    listeners_mem w2 a2 = Some \<lparr>p_user_data = d, pf_callback = cb\<rparr> \<and>
    vlc_event_send prog n e w2 = Some (stamped w e, w3) \<and>
    calls w3 = calls w2 @ map (call_of w (stamped w e)) (group_listeners w g) @
               [(cb, stamped w e, d), (cb, stamped w e, d)] \<and>
    ((\<forall>l \<in> set (group_listeners w g). fst (call_of w (stamped w e) l) \<noteq> cb) \<longrightarrow>
       filter (\<lambda>c. fst c = cb) (drop (length (calls w2)) (calls w3)) =
         [(cb, stamped w e, d), (cb, stamped w e, d)])"
proof -
  let ?e = "stamped w e" and ?t = "ev_type e"
  let ?li = "\<lparr>p_user_data = d, pf_callback = cb\<rparr>"
  let ?old = "map (call_of w ?e) (group_listeners w g)"
  let ?w1 = "w\<lparr>free_list := a2 # rest,
      listeners_mem := (listeners_mem w)(a1 \<mapsto> ?li),
      groups_mem := (groups_mem w)(g \<mapsto>
         (the (groups_mem w g))\<lparr>listeners := group_listeners w g @ [a1]\<rparr>)\<rparr>"
  have att1: "vlc_event_attach w ?t cb d = Some (VLC_SUCCESS, ?w1)"
    by (rule vlc_event_attach_found [OF v fl f])
  have v1: "valid_world ?w1" by (rule valid_world_attach_found [OF v fl f])
  have f1: "find_group ?w1 ?t = Some g" by (simp add: find_group_attach_found [OF v f] f)
  have fl1: "free_list ?w1 = a2 # rest" by simp
  have gl1: "group_listeners ?w1 g = group_listeners w g @ [a1]"
    by (rule attach_found_listeners(1) [OF v fl f])
  let ?w2 = "?w1\<lparr>free_list := rest,
      listeners_mem := (listeners_mem ?w1)(a2 \<mapsto> ?li),
      groups_mem := (groups_mem ?w1)(g \<mapsto>
         (the (groups_mem ?w1 g))\<lparr>listeners := group_listeners ?w1 g @ [a2]\<rparr>)\<rparr>"
  have att2: "vlc_event_attach ?w1 ?t cb d = Some (VLC_SUCCESS, ?w2)"
    by (rule vlc_event_attach_found [OF v1 fl1 f1])
  have gl2: "group_listeners ?w2 g = group_listeners w g @ [a1, a2]"
    using attach_found_listeners(1) [OF v1 fl1 f1, where d = d and cb = cb] gl1 by simp
  have ne: "a1 \<noteq> a2" using valid_world_distinct_free [OF v] fl by simp
  have lm1: "listeners_mem ?w2 a1 = Some ?li" using ne by simp
  have lm2: "listeners_mem ?w2 a2 = Some ?li" by simp
  have c2: "calls ?w2 = calls w" by simp
  have all: "attach_all w ?t [(cb, d), (cb, d)] = Some ?w2"
    using att1 att2 by simp
  have len: "length [(cb, d), (cb, d)] \<le> length (free_list w)" by (simp add: fl)
  from attach_all_then_send [OF v f len q, of n] qc n all
  have s: "vlc_event_send prog n e ?w2 =
       Some (?e, ?w2\<lparr>calls := calls w @ ?old @ [(cb, ?e, d), (cb, ?e, d)]\<rparr>)"
    by auto
  let ?w3 = "?w2\<lparr>calls := calls w @ ?old @ [(cb, ?e, d), (cb, ?e, d)]\<rparr>"
  have c3: "calls ?w3 = calls ?w2 @ ?old @ [(cb, ?e, d), (cb, ?e, d)]" by simp
  have fi: "filter (\<lambda>c. fst c = cb) (drop (length (calls ?w2)) (calls ?w3)) =
         [(cb, ?e, d), (cb, ?e, d)]"
    if "\<forall>l \<in> set (group_listeners w g). fst (call_of w ?e l) \<noteq> cb"
    using that filter_calls_new [of ?old cb "[(cb, ?e, d), (cb, ?e, d)]"] by simp
  from att1 att2 gl2 ne lm1 lm2 s c3 fi show ?thesis by blast
qed

theorem attach_twice_calls_twice_witness:
  "valid_world demo_world \<and> find_group demo_world (ev_type (demo_event 5)) = Some 10 \<and>
   free_list demo_world = 13 # 14 # [15] \<and>
   quiet quiet_prog (stamped demo_world (demo_event 5)) demo_world (group_listeners demo_world 10) \<and>
   quiet_prog 3 (stamped demo_world (demo_event 5)) 300 = Return \<and>
   length (group_listeners demo_world 10) + 2 \<le> 4 \<and>
   (\<exists>w1 w2 w3.
      vlc_event_attach demo_world 5 3 300 = Some (VLC_SUCCESS, w1) \<and>
      vlc_event_attach w1 5 3 300 = Some (VLC_SUCCESS, w2) \<and>
      group_listeners w2 10 = [11, 12, 13, 14] \<and>
      vlc_event_send quiet_prog 4 (demo_event 5) w2 = Some (stamped demo_world (demo_event 5), w3) \<and>
      calls w3 = calls w2 @
        [(1, stamped demo_world (demo_event 5), 100), (2, stamped demo_world (demo_event 5), 200),
         (3, stamped demo_world (demo_event 5), 300), (3, stamped demo_world (demo_event 5), 300)] \<and>
      filter (\<lambda>c. fst c = 3) (drop (length (calls w2)) (calls w3)) =
        [(3, stamped demo_world (demo_event 5), 300), (3, stamped demo_world (demo_event 5), 300)])"
proof -
  have e: "ev_type (demo_event 5) = 5" by (simp add: demo_event_def)
  have h: "valid_world demo_world" "find_group demo_world (ev_type (demo_event 5)) = Some 10"
    "free_list demo_world = 13 # 14 # [15]"
    "quiet quiet_prog (stamped demo_world (demo_event 5)) demo_world (group_listeners demo_world 10)"
    "quiet_prog 3 (stamped demo_world (demo_event 5)) 300 = Return"
    "length (group_listeners demo_world 10) + 2 \<le> 4"
    by (simp_all add: valid_demo_world find_group_demo_world e quiet_demo_world
          demo_world_fields quiet_prog_def)
  from attach_twice_calls_twice [OF h]
  obtain w1 w2 w3 where
    "vlc_event_attach demo_world (ev_type (demo_event 5)) 3 300 = Some (VLC_SUCCESS, w1)"
    "vlc_event_attach w1 (ev_type (demo_event 5)) 3 300 = Some (VLC_SUCCESS, w2)"
    "group_listeners w2 10 = group_listeners demo_world 10 @ [13, 14]"
    "vlc_event_send quiet_prog 4 (demo_event 5) w2 = Some (stamped demo_world (demo_event 5), w3)"
    "calls w3 = calls w2 @
       map (call_of demo_world (stamped demo_world (demo_event 5))) (group_listeners demo_world 10) @
       [(3, stamped demo_world (demo_event 5), 300), (3, stamped demo_world (demo_event 5), 300)]"
    "(\<forall>l \<in> set (group_listeners demo_world 10).
        fst (call_of demo_world (stamped demo_world (demo_event 5)) l) \<noteq> 3) \<longrightarrow>
     filter (\<lambda>c. fst c = 3) (drop (length (calls w2)) (calls w3)) =
       [(3, stamped demo_world (demo_event 5), 300), (3, stamped demo_world (demo_event 5), 300)]"
    by blast
  moreover have "\<forall>l \<in> set (group_listeners demo_world 10).
        fst (call_of demo_world (stamped demo_world (demo_event 5)) l) \<noteq> 3"
    by (simp add: demo_world_fields call_of_def)
  ultimately have "\<exists>w1 w2 w3.
      vlc_event_attach demo_world 5 3 300 = Some (VLC_SUCCESS, w1) \<and>
      vlc_event_attach w1 5 3 300 = Some (VLC_SUCCESS, w2) \<and>
      group_listeners w2 10 = [11, 12, 13, 14] \<and>
      vlc_event_send quiet_prog 4 (demo_event 5) w2 = Some (stamped demo_world (demo_event 5), w3) \<and>
      calls w3 = calls w2 @
        [(1, stamped demo_world (demo_event 5), 100), (2, stamped demo_world (demo_event 5), 200),
         (3, stamped demo_world (demo_event 5), 300), (3, stamped demo_world (demo_event 5), 300)] \<and>
      filter (\<lambda>c. fst c = 3) (drop (length (calls w2)) (calls w3)) =
        [(3, stamped demo_world (demo_event 5), 300), (3, stamped demo_world (demo_event 5), 300)]"
    by (auto simp: e demo_world_fields call_of_def)
  with h show ?thesis by blast
qed

subsection \<open>The order of the calls\<close>

text \<open>
  C8. Take a state of the manager in which the event's type is registered and the
  listeners attached to the type leave the manager alone, and attach to the type the
  listeners \<open>xs\<close>, which do the same, one after the other. Each attach puts its listener
  at the end of the array of the first group of the type, and a send of the event that
  follows returns and calls the listeners in the order of that array: first those that
  were attached before, in their order, then those of \<open>xs\<close> in the order in which they
  were attached. With \<open>xs\<close> empty this is a send in any state: the calls follow the
  array.
\<close>

theorem send_calls_in_attach_order:
  assumes "valid_world w" and "find_group w (ev_type e) = Some g"
    and "length xs \<le> length (free_list w)"
    and "quiet prog (stamped w e) w (group_listeners w g)"
    and "\<forall>(cb, d) \<in> set xs. prog cb (stamped w e) d = Return"
    and "length (group_listeners w g) + length xs \<le> n"
  shows "\<exists>w1 w2.
    attach_all w (ev_type e) xs = Some w1 \<and>
    group_listeners w1 g = group_listeners w g @ take (length xs) (free_list w) \<and>
    vlc_event_send prog n e w1 = Some (stamped w e, w2) \<and>
    calls w2 = calls w1 @ map (call_of w (stamped w e)) (group_listeners w g) @
               map (\<lambda>(cb, d). (cb, stamped w e, d)) xs \<and>
    map (call_of w1 (stamped w e)) (group_listeners w1 g) =
      map (call_of w (stamped w e)) (group_listeners w g) @
      map (\<lambda>(cb, d). (cb, stamped w e, d)) xs"
proof -
  let ?e = "stamped w e"
  from attach_all_result [OF assms(1-3), of ?e] obtain w1 where w1:
    "attach_all w (ev_type e) xs = Some w1" "calls w1 = calls w"
    "map (call_of w1 ?e) (group_listeners w1 g) =
       map (call_of w ?e) (group_listeners w g) @ map (\<lambda>(cb, d). (cb, ?e, d)) xs"
    by blast
  from attach_all_then_send [OF assms] w1(1)
  have gl: "group_listeners w1 g = group_listeners w g @ take (length xs) (free_list w)"
    and s: "vlc_event_send prog n e w1 =
      Some (?e, w1\<lparr>calls := calls w @ map (call_of w ?e) (group_listeners w g) @
                                 map (\<lambda>(cb, d). (cb, ?e, d)) xs\<rparr>)"
    by auto
  let ?w2 = "w1\<lparr>calls := calls w @ map (call_of w ?e) (group_listeners w g) @
                                 map (\<lambda>(cb, d). (cb, ?e, d)) xs\<rparr>"
  have "calls ?w2 = calls w1 @ map (call_of w ?e) (group_listeners w g) @
               map (\<lambda>(cb, d). (cb, ?e, d)) xs"
    by (simp add: w1(2))
  with w1(1,3) gl s show ?thesis by blast
qed

theorem send_calls_in_attach_order_witness:
  "valid_world demo_world \<and> find_group demo_world (ev_type (demo_event 5)) = Some 10 \<and>
   length [(4 :: nat, 400 :: nat), (3, 300)] \<le> length (free_list demo_world) \<and>
   quiet quiet_prog (stamped demo_world (demo_event 5)) demo_world (group_listeners demo_world 10) \<and>
   quiet_prog 4 (stamped demo_world (demo_event 5)) 400 = Return \<and>
   quiet_prog 3 (stamped demo_world (demo_event 5)) 300 = Return \<and>
   length (group_listeners demo_world 10) + length [(4 :: nat, 400 :: nat), (3, 300)] \<le> 4 \<and>
   (\<exists>w1 w2.
      attach_all demo_world 5 [(4, 400), (3, 300)] = Some w1 \<and>
      group_listeners w1 10 = [11, 12, 13, 14] \<and>
      vlc_event_send quiet_prog 4 (demo_event 5) w1 = Some (stamped demo_world (demo_event 5), w2) \<and>
      calls w2 = calls w1 @
        [(1, stamped demo_world (demo_event 5), 100), (2, stamped demo_world (demo_event 5), 200),
         (4, stamped demo_world (demo_event 5), 400), (3, stamped demo_world (demo_event 5), 300)])"
proof -
  have e: "ev_type (demo_event 5) = 5" by (simp add: demo_event_def)
  have h: "valid_world demo_world" "find_group demo_world (ev_type (demo_event 5)) = Some 10"
    "length [(4 :: nat, 400 :: nat), (3, 300)] \<le> length (free_list demo_world)"
    "quiet quiet_prog (stamped demo_world (demo_event 5)) demo_world (group_listeners demo_world 10)"
    "\<forall>(cb, d) \<in> set [(4, 400), (3, 300)].
      quiet_prog cb (stamped demo_world (demo_event 5)) d = Return"
    "length (group_listeners demo_world 10) + length [(4 :: nat, 400 :: nat), (3, 300)] \<le> 4"
    by (simp_all add: valid_demo_world find_group_demo_world e quiet_demo_world
          demo_world_fields quiet_prog_def)
  from send_calls_in_attach_order [OF h]
  obtain w1 w2 where
    "attach_all demo_world (ev_type (demo_event 5)) [(4, 400), (3, 300)] = Some w1"
    "group_listeners w1 10 = group_listeners demo_world 10 @
       take (length [(4 :: nat, 400 :: nat), (3, 300)]) (free_list demo_world)"
    "vlc_event_send quiet_prog 4 (demo_event 5) w1 = Some (stamped demo_world (demo_event 5), w2)"
    "calls w2 = calls w1 @
       map (call_of demo_world (stamped demo_world (demo_event 5))) (group_listeners demo_world 10) @
       map (\<lambda>(cb, d). (cb, stamped demo_world (demo_event 5), d)) [(4, 400), (3, 300)]"
    by blast
  then have "\<exists>w1 w2.
      attach_all demo_world 5 [(4, 400), (3, 300)] = Some w1 \<and>
      group_listeners w1 10 = [11, 12, 13, 14] \<and>
      vlc_event_send quiet_prog 4 (demo_event 5) w1 = Some (stamped demo_world (demo_event 5), w2) \<and>
      calls w2 = calls w1 @
        [(1, stamped demo_world (demo_event 5), 100), (2, stamped demo_world (demo_event 5), 200),
         (4, stamped demo_world (demo_event 5), 400), (3, stamped demo_world (demo_event 5), 300)]"
    by (auto simp: e demo_world_fields call_of_def)
  moreover have "quiet_prog 4 (stamped demo_world (demo_event 5)) 400 = Return"
    "quiet_prog 3 (stamped demo_world (demo_event 5)) 300 = Return"
    by (simp_all add: quiet_prog_def)
  ultimately show ?thesis using h(1-4,6) by blast
qed

subsection \<open>Whatever the listeners do\<close>

text \<open>
  A relation between the state before and the state after that holds across every call
  of attach, detach and register and across the note of a call, and that is reflexive
  and transitive, holds across a send, whatever the listeners that are called do. The
  predicate \<open>ok\<close> says which calls the callbacks make.
\<close>

lemma send_groups_rel:
  assumes refl: "\<And>w. R w w"
    and sl: "\<And>g i e w w'. send_listeners prog n g i e w = Some w' \<Longrightarrow> R w w'"
  shows "send_groups prog n i e w = Some w' \<Longrightarrow> R w w'"
proof (induction "length (listeners_groups (em w)) - i" arbitrary: i)
  case 0
  then show ?case using refl by (subst (asm) send_groups.simps) simp
next
  case (Suc k)
  from Suc.prems show ?case
    using Suc.hyps(1) [of "Suc i"] Suc.hyps(2) sl
    by (subst (asm) send_groups.simps) (auto simp: Let_def split: if_splits option.splits)
qed

lemma vlc_event_send_rel:
  assumes refl: "\<And>w. R w w"
    and sl: "\<And>g i e w w'. send_listeners prog n g i e w = Some w' \<Longrightarrow> R w w'"
  shows "vlc_event_send prog n e w = Some (e', w') \<Longrightarrow> R w w'"
  using send_groups_rel [of R prog n, OF refl sl]
  by (auto simp: vlc_event_send.simps Let_def split: option.splits)

lemma run_rel:
  fixes R :: "world \<Rightarrow> world \<Rightarrow> bool" and ok :: "cb_code \<Rightarrow> bool"
  assumes refl: "\<And>w. R w w"
    and trans: "\<And>a b c. R a b \<Longrightarrow> R b c \<Longrightarrow> R a c"
    and att: "\<And>w t f d r w'. vlc_event_attach w t f d = Some (r, w') \<Longrightarrow> R w w'"
    and det: "\<And>w t f d r w'. vlc_event_detach w t f d = Some (r, w') \<Longrightarrow> R w w'"
    and reg: "\<And>w t k. ok (Call_register t k) \<Longrightarrow>
                R w (snd (vlc_event_manager_register_event_type w t))"
    and call: "\<And>w c. R w (w\<lparr>calls := calls w @ [c]\<rparr>)"
    and ok_att: "\<And>t f d k r. ok (Call_attach t f d k) \<Longrightarrow> ok (k r)"
    and ok_det: "\<And>t f d k r. ok (Call_detach t f d k) \<Longrightarrow> ok (k r)"
    and ok_reg: "\<And>t k r. ok (Call_register t k) \<Longrightarrow> ok (k r)"
    and ok_send: "\<And>e k. ok (Call_send e k) \<Longrightarrow> ok k"
    and ok_prog: "\<And>f e d. ok (prog f e d)"
  shows "(\<forall>c w w'. run_cb prog n c w = Some w' \<longrightarrow> ok c \<longrightarrow> R w w') \<and>
         (\<forall>g i e w w'. send_listeners prog n g i e w = Some w' \<longrightarrow> R w w')"
proof (induction n)
  case 0
  have "R w w'" if "run_cb prog 0 c w = Some w'" for c w w'
    using that refl by (cases c) auto
  moreover have "R w w'" if "send_listeners prog 0 g i e w = Some w'" for g i e w w'
    using that refl
    by (subst (asm) send_listeners.simps) (auto simp: Let_def split: option.splits if_splits)
  ultimately show ?case by blast
next
  case (Suc n)
  then have ih_cb: "\<And>c w w'. run_cb prog n c w = Some w' \<Longrightarrow> ok c \<Longrightarrow> R w w'"
    and ih_sl: "\<And>g i e w w'. send_listeners prog n g i e w = Some w' \<Longrightarrow> R w w'"
    by blast+
  have ih_send: "\<And>e w e' w'. vlc_event_send prog n e w = Some (e', w') \<Longrightarrow> R w w'"
    by (rule vlc_event_send_rel [of R prog n, OF refl ih_sl])
  have "R w w'" if r: "run_cb prog (Suc n) c w = Some w'" and okc: "ok c" for c w w'
  proof (cases c)
    case Return
    with r refl show ?thesis by simp
  next
    case (Call_attach t f d k)
    with r obtain x w1 where "vlc_event_attach w t f d = Some (x, w1)"
      "run_cb prog n (k x) w1 = Some w'"
      by (auto split: option.splits)
    with att ih_cb ok_att okc Call_attach trans show ?thesis by blast
  next
    case (Call_detach t f d k)
    with r obtain x w1 where "vlc_event_detach w t f d = Some (x, w1)"
      "run_cb prog n (k x) w1 = Some w'"
      by (auto split: option.splits)
    with det ih_cb ok_det okc Call_detach trans show ?thesis by blast
  next
    case (Call_register t k)
    with r obtain x w1 where x: "vlc_event_manager_register_event_type w t = (x, w1)"
      "run_cb prog n (k x) w1 = Some w'"
      by (auto split: prod.splits)
    from reg [of t k w] okc Call_register x(1) have "R w w1" by simp
    with x(2) ih_cb ok_reg okc Call_register trans show ?thesis by blast
  next
    case (Call_send e k)
    with r obtain e' w1 where "vlc_event_send prog n e w = Some (e', w1)"
      "run_cb prog n k w1 = Some w'"
      by (auto split: option.splits)
    with ih_send ih_cb ok_send okc Call_send trans show ?thesis by blast
  qed
  moreover have "R w w'" if r: "send_listeners prog (Suc n) g i e w = Some w'" for g i e w w'
  proof -
    note r' = r [unfolded send_listeners.simps [of prog "Suc n" g i e w]]
    show ?thesis
    proof (cases "groups_mem w g")
      case None
      with r' show ?thesis by simp
    next
      case (Some grp)
      show ?thesis
      proof (cases "i < length (listeners grp)")
        case False
        with r' Some refl show ?thesis by simp
      next
        case True
        with r' Some obtain li where li: "listeners_mem w (listeners grp ! i) = Some li"
          by (cases "listeners_mem w (listeners grp ! i)") auto
        let ?w0 = "w\<lparr>calls := calls w @ [(pf_callback li, e, p_user_data li)]\<rparr>"
        from r' Some True li obtain w1 where
          s1: "run_cb prog n (prog (pf_callback li) e (p_user_data li)) ?w0 = Some w1" and
          s2: "send_listeners prog n g (Suc i) e w1 = Some w'"
          by (auto simp: Let_def split: option.splits)
        have a: "R w ?w0" by (rule call)
        have b: "R ?w0 w1" by (rule ih_cb [OF s1 ok_prog])
        have c: "R w1 w'" by (rule ih_sl [OF s2])
        show ?thesis by (rule trans [OF a trans [OF b c]])
      qed
    qed
  qed
  ultimately show ?case by blast
qed

lemma send_rel:
  fixes R :: "world \<Rightarrow> world \<Rightarrow> bool" and ok :: "cb_code \<Rightarrow> bool"
  assumes refl: "\<And>w. R w w"
    and trans: "\<And>a b c. R a b \<Longrightarrow> R b c \<Longrightarrow> R a c"
    and att: "\<And>w t f d r w'. vlc_event_attach w t f d = Some (r, w') \<Longrightarrow> R w w'"
    and det: "\<And>w t f d r w'. vlc_event_detach w t f d = Some (r, w') \<Longrightarrow> R w w'"
    and reg: "\<And>w t k. ok (Call_register t k) \<Longrightarrow>
                R w (snd (vlc_event_manager_register_event_type w t))"
    and call: "\<And>w c. R w (w\<lparr>calls := calls w @ [c]\<rparr>)"
    and ok_att: "\<And>t f d k r. ok (Call_attach t f d k) \<Longrightarrow> ok (k r)"
    and ok_det: "\<And>t f d k r. ok (Call_detach t f d k) \<Longrightarrow> ok (k r)"
    and ok_reg: "\<And>t k r. ok (Call_register t k) \<Longrightarrow> ok (k r)"
    and ok_send: "\<And>e k. ok (Call_send e k) \<Longrightarrow> ok k"
    and ok_prog: "\<And>f e d. ok (prog f e d)"
    and s: "vlc_event_send prog n e w = Some (e', w')"
  shows "R w w'"
proof -
  have "(\<forall>c w w'. run_cb prog n c w = Some w' \<longrightarrow> ok c \<longrightarrow> R w w') \<and>
         (\<forall>g i e w w'. send_listeners prog n g i e w = Some w' \<longrightarrow> R w w')"
    by (rule run_rel [where R = R and ok = ok and prog = prog and n = n]) fact+
  then have "\<And>g i e w w'. send_listeners prog n g i e w = Some w' \<Longrightarrow> R w w'" by blast
  from vlc_event_send_rel [of R prog n, OF refl this s] show ?thesis .
qed

subsection \<open>The groups of the manager are only ever appended to\<close>

lemma categories_same:
  assumes "listeners_groups (em w') = listeners_groups (em w)"
    and "\<And>g. g \<in> set (listeners_groups (em w)) \<Longrightarrow> type_of_group w' g = type_of_group w g"
  shows "categories w' = categories w"
  using assms by (simp add: categories_def)

lemma categories_calls [simp]: "categories (w\<lparr>calls := c\<rparr>) = categories w"
  by (simp add: categories_def type_of_group_def)

lemma attach_keeps_groups:
  assumes v: "valid_world w" and r: "vlc_event_attach w t cb d = Some (r, w')"
  shows "listeners_groups (em w') = listeners_groups (em w) \<and> categories w' = categories w"
  using v
proof (cases rule: vlc_event_attach_cases [where t = t and cb = cb and d = d])
  case nomem
  with r show ?thesis by simp
next
  case (unknown a rest)
  with r show ?thesis by (auto simp: categories_def type_of_group_def)
next
  case (found a rest g)
  from valid_world_group [OF v find_group_SomeD(1) [OF found(2)]]
  obtain grp where grp: "groups_mem w g = Some grp" ..
  from r found(3) have w': "w' = w\<lparr>free_list := rest,
             listeners_mem := (listeners_mem w)(a \<mapsto> \<lparr>p_user_data = d, pf_callback = cb\<rparr>),
             groups_mem := (groups_mem w)(g \<mapsto>
                (the (groups_mem w g))\<lparr>listeners := group_listeners w g @ [a]\<rparr>)\<rparr>"
    by simp
  have "listeners_groups (em w') = listeners_groups (em w)" by (simp add: w')
  moreover have "type_of_group w' g' = type_of_group w g'" for g'
    by (simp add: w' type_of_group_def grp)
  ultimately show ?thesis using categories_same [of w' w] by simp
qed

lemma detach_keeps_groups:
  assumes v: "valid_world w" and r: "vlc_event_detach w t cb d = Some (r, w')"
  shows "listeners_groups (em w') = listeners_groups (em w) \<and> categories w' = categories w"
  using v
proof (cases rule: vlc_event_detach_cases [where t = t and cb = cb and d = d])
  case missing
  with r show ?thesis by (auto simp: categories_def type_of_group_def msg_Warn_def)
next
  case (removed g)
  from removed(3) obtain before l after where
    e: "List.extract (matches w cb d) (group_listeners w g) = Some (before, l, after)"
    and ls: "group_listeners w g = before @ l # after"
    by (rule has_match_extract)
  from r removed(5) have w': "w' = remove_listener w g (before @ after) l"
    by (simp add: detach_in_def e)
  note facts = remove_listener_facts [OF v removed(1) ls]
  show ?thesis
    unfolding w'
    using facts(1,2) categories_same [of "remove_listener w g (before @ after) l" w] by simp
qed

lemma register_appends:
  assumes v: "valid_world w" and fl: "free_list w = a # rest"
  shows "listeners_groups (em (snd (vlc_event_manager_register_event_type w t))) =
           listeners_groups (em w) @ [a]"
    and "a \<notin> set (listeners_groups (em w))"
    and "categories (snd (vlc_event_manager_register_event_type w t)) = categories w @ [Some t]"
    and "groups_mem (snd (vlc_event_manager_register_event_type w t)) a =
           Some \<lparr>event_type = t, listeners = []\<rparr>"
proof -
  have a: "groups_mem w a = None" using valid_world_free [OF v, of a] fl by simp
  show a_gs: "a \<notin> set (listeners_groups (em w))"
    using valid_world_group [OF v, of a] a by auto
  show "listeners_groups (em (snd (vlc_event_manager_register_event_type w t))) =
           listeners_groups (em w) @ [a]"
    by (simp add: register_result [OF fl])
  show "groups_mem (snd (vlc_event_manager_register_event_type w t)) a =
           Some \<lparr>event_type = t, listeners = []\<rparr>"
    by (simp add: register_result [OF fl])
  have "map (type_of_group (snd (vlc_event_manager_register_event_type w t)))
          (listeners_groups (em w)) = map (type_of_group w) (listeners_groups (em w))"
    using a_gs by (intro map_cong) (auto simp: register_result [OF fl] type_of_group_def)
  then show "categories (snd (vlc_event_manager_register_event_type w t)) =
      categories w @ [Some t]"
    by (simp add: categories_def register_result [OF fl] type_of_group_def)
qed

lemma register_grows:
  assumes v: "valid_world w"
  shows "prefix (listeners_groups (em w))
           (listeners_groups (em (snd (vlc_event_manager_register_event_type w t))))"
    and "prefix (categories w) (categories (snd (vlc_event_manager_register_event_type w t)))"
proof -
  show "prefix (listeners_groups (em w))
           (listeners_groups (em (snd (vlc_event_manager_register_event_type w t))))"
    by (cases "free_list w") (simp_all add: register_nomem register_appends(1) [OF v])
  show "prefix (categories w) (categories (snd (vlc_event_manager_register_event_type w t)))"
    by (cases "free_list w") (simp_all add: register_nomem register_appends(3) [OF v])
qed

text \<open>
  Across a send, whatever the listeners do: the state stays a state of the manager, only
  first groups have listeners, and the array of groups and their types are extended at
  the end, if at all.
\<close>

lemma send_grows:
  assumes v: "valid_world w" and s: "vlc_event_send prog n e w = Some (e', w')"
  shows "valid_world w' \<and> (first_owns w \<longrightarrow> first_owns w') \<and>
         prefix (listeners_groups (em w)) (listeners_groups (em w')) \<and>
         prefix (categories w) (categories w')"
proof -
  let ?R = "\<lambda>w w'. valid_world w \<longrightarrow>
      valid_world w' \<and> (first_owns w \<longrightarrow> first_owns w') \<and>
      prefix (listeners_groups (em w)) (listeners_groups (em w')) \<and>
      prefix (categories w) (categories w')"
  have "?R w w'"
  proof (rule send_rel [where R = ?R and ok = "\<lambda>c. True" and prog = prog, OF _ _ _ _ _ _ _ _ _ _ _ s])
    show "?R w w" for w by simp
    show "?R a c" if ab: "?R a b" and bc: "?R b c" for a b c
    proof
      assume "valid_world a"
      with ab have b: "valid_world b" "first_owns a \<longrightarrow> first_owns b"
        "prefix (listeners_groups (em a)) (listeners_groups (em b))"
        "prefix (categories a) (categories b)"
        by simp_all
      with bc have c: "valid_world c" "first_owns b \<longrightarrow> first_owns c"
        "prefix (listeners_groups (em b)) (listeners_groups (em c))"
        "prefix (categories b) (categories c)"
        by simp_all
      from b(2) c(1,2) prefix_order.trans [OF b(3) c(3)] prefix_order.trans [OF b(4) c(4)]
      show "valid_world c \<and> (first_owns a \<longrightarrow> first_owns c) \<and>
        prefix (listeners_groups (em a)) (listeners_groups (em c)) \<and>
        prefix (categories a) (categories c)"
        by simp
    qed
    show "?R w w'" if "vlc_event_attach w t f d = Some (r, w')" for w t f d r w'
      using valid_world_attach [OF _ that] first_owns_attach [OF _ _ that]
        attach_keeps_groups [OF _ that]
      by simp
    show "?R w w'" if "vlc_event_detach w t f d = Some (r, w')" for w t f d r w'
      using valid_world_detach [OF _ that] first_owns_detach [OF _ _ that]
        detach_keeps_groups [OF _ that]
      by simp
    show "?R w (snd (vlc_event_manager_register_event_type w t))" for w t
      using valid_world_register [of w t] first_owns_register [of w t] register_grows [of w t]
      by simp
    show "?R w (w\<lparr>calls := calls w @ [c]\<rparr>)" for w c
      by simp
  qed simp_all
  with v show ?thesis by simp
qed

text \<open>When no callback registers a type, the groups and their types stay as they are.\<close>

lemma send_keeps_groups:
  assumes v: "valid_world w" and s: "vlc_event_send prog n e w = Some (e', w')"
    and nr: "\<And>f x y. no_register (prog f x y)"
  shows "listeners_groups (em w') = listeners_groups (em w) \<and> categories w' = categories w"
proof -
  let ?R = "\<lambda>w w'. valid_world w \<longrightarrow>
      valid_world w' \<and> listeners_groups (em w') = listeners_groups (em w) \<and>
      categories w' = categories w"
  have "?R w w'"
  proof (rule send_rel [where R = ?R and ok = no_register and prog = prog, OF _ _ _ _ _ _ _ _ _ _ _ s])
    show "?R w w" for w by simp
    show "?R a c" if ab: "?R a b" and bc: "?R b c" for a b c
    proof
      assume "valid_world a"
      with ab have b: "valid_world b" "listeners_groups (em b) = listeners_groups (em a)"
        "categories b = categories a"
        by blast+
      with bc have c: "valid_world c" "listeners_groups (em c) = listeners_groups (em b)"
        "categories c = categories b"
        by blast+
      show "valid_world c \<and> listeners_groups (em c) = listeners_groups (em a) \<and>
        categories c = categories a"
        using c(1) by (simp only: b(2,3) c(2,3))
    qed
    show "?R w w'" if "vlc_event_attach w t f d = Some (r, w')" for w t f d r w'
      using valid_world_attach [OF _ that] attach_keeps_groups [OF _ that] by simp
    show "?R w w'" if "vlc_event_detach w t f d = Some (r, w')" for w t f d r w'
      using valid_world_detach [OF _ that] detach_keeps_groups [OF _ that] by simp
    show "?R w (snd (vlc_event_manager_register_event_type w t))"
      if "no_register (Call_register t k)" for w t k
      using that by simp
    show "?R w (w\<lparr>calls := calls w @ [c]\<rparr>)" for w c
      by simp
    show "no_register (prog f e d)" for f e d by (rule nr)
  qed simp_all
  with v show ?thesis by simp
qed

subsection \<open>Every state the manager gets into\<close>

lemma valid_world_init:
  assumes "distinct (free_list w)"
    and "\<forall>a \<in> set (free_list w). groups_mem w a = None \<and> listeners_mem w a = None"
  shows "valid_world (snd (vlc_event_manager_init w obj parent_obj))"
    and "first_owns (snd (vlc_event_manager_init w obj parent_obj))"
  using assms
  by (simp_all add: vlc_event_manager_init_def valid_world_def first_owns_def)

text \<open>
  The hypotheses of the theorems of this file, \<open>valid_world\<close> and \<open>first_owns\<close>, hold
  in every state that the manager gets into.
\<close>

lemma reachable_valid:
  "reachable prog w \<Longrightarrow> valid_world w \<and> first_owns w"
proof (induction rule: reachable.induct)
  case (init w obj parent_obj)
  then show ?case using valid_world_init [of w obj parent_obj] by simp
next
  case (register w t)
  then show ?case using valid_world_register [of w t] first_owns_register [of w t] by simp
next
  case (attach w t callback user_data r w')
  then show ?case
    using valid_world_attach [of w t callback user_data r w']
      first_owns_attach [of w t callback user_data r w']
    by simp
next
  case (detach w t callback user_data r w')
  then show ?case
    using valid_world_detach [of w t callback user_data r w']
      first_owns_detach [of w t callback user_data r w']
    by simp
next
  case (send w n e e' w')
  then show ?case using send_grows [of w prog n e e' w'] by simp
qed

lemma reachable_demo_world: "reachable prog demo_world"
proof -
  have b: "reachable prog (snd (vlc_event_manager_init blank_world 7 8))"
    by (rule reachable.init) (simp_all add: blank_world_def)
  have r: "reachable prog (snd (vlc_event_manager_register_event_type
        (snd (vlc_event_manager_init blank_world 7 8)) 5))"
    by (rule reachable.register [OF b])
  have all: "reachable prog w \<Longrightarrow> attach_all w t xs = Some w' \<Longrightarrow> reachable prog w'"
    for w t xs w'
  proof (induction xs arbitrary: w)
    case Nil
    then show ?case by simp
  next
    case (Cons x xs)
    obtain cb d where x: "x = (cb, d)" by (cases x)
    from Cons.prems(2) obtain w1 where
      a: "vlc_event_attach w t cb d = Some (VLC_SUCCESS, w1)" and r: "attach_all w1 t xs = Some w'"
      by (auto simp: x split: option.splits vlc_status.splits)
    from Cons.IH [OF reachable.attach [OF Cons.prems(1) a] r] show ?case .
  qed
  have "attach_all
     (snd (vlc_event_manager_register_event_type
        (snd (vlc_event_manager_init blank_world 7 8)) 5))
     5 [(1, 100), (2, 200)] = Some demo_world"
    by (simp add: vlc_event_manager_init_def vlc_event_manager_register_event_type_def
          malloc_def vlc_event_attach_def attach_groups.simps ARRAY_APPEND_def
          blank_world_def demo_world_def)
  from all [OF r this] show ?thesis .
qed

subsection \<open>The array of groups across the operations\<close>

text \<open>
  C9. In a state of the manager: \<open>vlc_event_manager_register_event_type\<close> either
  succeeds and puts one new group, of the type given, at the end of the array of groups,
  or fails for lack of memory and changes nothing; \<open>__vlc_event_attach\<close> and
  \<open>vlc_event_detach\<close> return and leave the array of groups and the types of the groups
  as they were; and when \<open>vlc_event_send\<close> returns, the array of groups and the list of
  their types before the send are prefixes of those after it, whatever the listeners
  did, and are equal to them when no callback registers a type. So no operation removes
  or reorders a group, and only registration adds one.
\<close>

theorem groups_are_append_only:
  assumes v: "valid_world w"
  shows
   "((fst (vlc_event_manager_register_event_type w t) = VLC_SUCCESS \<and>
      (\<exists>a. a \<notin> set (listeners_groups (em w)) \<and>
           listeners_groups (em (snd (vlc_event_manager_register_event_type w t))) =
             listeners_groups (em w) @ [a]) \<and>
      categories (snd (vlc_event_manager_register_event_type w t)) = categories w @ [Some t]) \<or>
     vlc_event_manager_register_event_type w t = (VLC_ENOMEM, w)) \<and>
    (\<exists>r w'. vlc_event_attach w t cb d = Some (r, w') \<and>
       listeners_groups (em w') = listeners_groups (em w) \<and> categories w' = categories w) \<and>
    (\<exists>r w'. vlc_event_detach w t cb d = Some (r, w') \<and>
       listeners_groups (em w') = listeners_groups (em w) \<and> categories w' = categories w) \<and>
    (\<forall>e' w'. vlc_event_send prog n e w = Some (e', w') \<longrightarrow>
       prefix (listeners_groups (em w)) (listeners_groups (em w')) \<and>
       prefix (categories w) (categories w') \<and>
       ((\<forall>f x y. no_register (prog f x y)) \<longrightarrow>
          listeners_groups (em w') = listeners_groups (em w) \<and> categories w' = categories w))"
proof (intro conjI allI impI)
  show "(fst (vlc_event_manager_register_event_type w t) = VLC_SUCCESS \<and>
      (\<exists>a. a \<notin> set (listeners_groups (em w)) \<and>
           listeners_groups (em (snd (vlc_event_manager_register_event_type w t))) =
             listeners_groups (em w) @ [a]) \<and>
      categories (snd (vlc_event_manager_register_event_type w t)) = categories w @ [Some t]) \<or>
     vlc_event_manager_register_event_type w t = (VLC_ENOMEM, w)"
  proof (cases "free_list w")
    case Nil
    then show ?thesis by (simp add: register_nomem)
  next
    case (Cons a rest)
    from register_appends(1) [OF v Cons, of t] register_appends(2) [OF v Cons]
      register_appends(3) [OF v Cons, of t] register_result [OF Cons, of t]
    show ?thesis by auto
  qed
next
  from vlc_event_attach_returns [OF v, of t cb d]
  obtain r w' where a: "vlc_event_attach w t cb d = Some (r, w')" by blast
  with attach_keeps_groups [OF v a]
  show "\<exists>r w'. vlc_event_attach w t cb d = Some (r, w') \<and>
       listeners_groups (em w') = listeners_groups (em w) \<and> categories w' = categories w"
    by blast
next
  from vlc_event_detach_returns [OF v, of t cb d]
  obtain r w' where a: "vlc_event_detach w t cb d = Some (r, w')" by blast
  with detach_keeps_groups [OF v a]
  show "\<exists>r w'. vlc_event_detach w t cb d = Some (r, w') \<and>
       listeners_groups (em w') = listeners_groups (em w) \<and> categories w' = categories w"
    by blast
next
  fix e' w' assume s: "vlc_event_send prog n e w = Some (e', w')"
  from send_grows [OF v s]
  show "prefix (listeners_groups (em w)) (listeners_groups (em w'))"
    and "prefix (categories w) (categories w')"
    by simp_all
  assume "\<forall>f x y. no_register (prog f x y)"
  then have "\<And>f x y. no_register (prog f x y)" by simp
  from send_keeps_groups [OF v s this]
  show "listeners_groups (em w') = listeners_groups (em w)" and "categories w' = categories w"
    by simp_all
qed

lemma send_quiet_demo:
  "vlc_event_send quiet_prog 2 (demo_event 5) demo_world =
     Some (stamped demo_world (demo_event 5),
           demo_world\<lparr>calls := [(1, stamped demo_world (demo_event 5), 100),
                                (2, stamped demo_world (demo_event 5), 200)]\<rparr>)"
proof -
  have "vlc_event_send quiet_prog 2 (demo_event 5) demo_world =
     Some (stamped demo_world (demo_event 5),
           demo_world\<lparr>calls := calls demo_world @
             map (call_of demo_world (stamped demo_world (demo_event 5)))
               (group_listeners demo_world 10)\<rparr>)"
    by (rule vlc_event_send_quiet)
       (simp_all add: valid_demo_world find_group_demo_world demo_event_def demo_world_fields
          quiet_demo_world)
  then show ?thesis by (simp add: demo_world_fields call_of_def)
qed

theorem groups_are_append_only_witness:
  "valid_world demo_world \<and>
   vlc_event_send quiet_prog 2 (demo_event 5) demo_world =
     Some (stamped demo_world (demo_event 5),
           demo_world\<lparr>calls := [(1, stamped demo_world (demo_event 5), 100),
                                (2, stamped demo_world (demo_event 5), 200)]\<rparr>) \<and>
   no_register (quiet_prog 1 (demo_event 5) 100) \<and>
   listeners_groups
     (em (demo_world\<lparr>calls := [(1, stamped demo_world (demo_event 5), 100),
                                (2, stamped demo_world (demo_event 5), 200)]\<rparr>)) = [10] \<and>
   categories
     (demo_world\<lparr>calls := [(1, stamped demo_world (demo_event 5), 100),
                           (2, stamped demo_world (demo_event 5), 200)]\<rparr>) = [Some 5] \<and>
   fst (vlc_event_manager_register_event_type demo_world 5) = VLC_SUCCESS \<and>
   categories (snd (vlc_event_manager_register_event_type demo_world 5)) = [Some 5, Some 5]"
proof -
  have nr: "\<forall>f x y. no_register (quiet_prog f x y)" by (simp add: quiet_prog_def)
  have c: "categories demo_world = [Some 5]"
    by (simp add: categories_def demo_world_fields type_of_group_def)
  have r: "vlc_event_manager_register_event_type demo_world 5 \<noteq> (VLC_ENOMEM, demo_world)"
    by (simp add: vlc_event_manager_register_event_type_def malloc_def demo_world_fields)
  from groups_are_append_only [OF valid_demo_world, of 5 1 100 quiet_prog 2 "demo_event 5"]
    send_quiet_demo nr r
  show ?thesis
    by (simp add: valid_demo_world c demo_world_fields quiet_prog_def)
qed

subsection \<open>A type registered more than once\<close>

lemma first_owns_later_empty:
  assumes "first_owns w" and "g \<in> set (listeners_groups (em w))"
    and "type_of_group w g = Some t" and "find_group w t \<noteq> Some g"
  shows "group_listeners w g = []"
  using assms unfolding first_owns_alt by blast

lemma attach_found_others:
  assumes "g' \<noteq> g"
  shows "group_listeners
     (w\<lparr>free_list := rest, listeners_mem := lm,
        groups_mem := (groups_mem w)(g \<mapsto> grp)\<rparr>) g' = group_listeners w g'"
  using assms by (simp add: group_listeners_def)

text \<open>
  C6. In a state of the manager, registering a type succeeds whenever \<open>malloc\<close> has a
  block to give, also when the type is registered already: a new, live group of the type
  and without listeners is put at the end, and the search for the type still finds the
  group it found before. A group that is not the first of its type has no listeners.
  \<open>__vlc_event_attach\<close> puts its listener in the first group of the type and leaves
  the arrays of the other groups alone; \<open>vlc_event_send\<close> runs the listeners of the
  first group of the event's type and of no other group; and after an attach, and after a
  send whatever the callbacks did, it is still so that only first groups have listeners:
  a later group of the same type never gets a listener and no event goes to it.
\<close>

theorem duplicate_groups_stay_empty:
  assumes v: "valid_world w" and f: "first_owns w"
  shows
   "(\<forall>a rest. free_list w = a # rest \<longrightarrow>
       fst (vlc_event_manager_register_event_type w t) = VLC_SUCCESS \<and>
       listeners_groups (em (snd (vlc_event_manager_register_event_type w t))) =
         listeners_groups (em w) @ [a] \<and>
       a \<notin> set (listeners_groups (em w)) \<and>
       groups_mem (snd (vlc_event_manager_register_event_type w t)) a =
         Some \<lparr>event_type = t, listeners = []\<rparr> \<and>
       valid_world (snd (vlc_event_manager_register_event_type w t)) \<and>
       first_owns (snd (vlc_event_manager_register_event_type w t)) \<and>
       (\<forall>g. find_group w t = Some g \<longrightarrow>
            find_group (snd (vlc_event_manager_register_event_type w t)) t = Some g)) \<and>
    (\<forall>g \<in> set (listeners_groups (em w)). \<forall>t'.
       type_of_group w g = Some t' \<longrightarrow> find_group w t' \<noteq> Some g \<longrightarrow> group_listeners w g = []) \<and>
    (\<exists>r w'. vlc_event_attach w t cb d = Some (r, w') \<and> valid_world w' \<and> first_owns w' \<and>
       (r = VLC_SUCCESS \<longrightarrow>
          (\<exists>g l. find_group w t = Some g \<and>
                 group_listeners w' g = group_listeners w g @ [l] \<and>
                 (\<forall>g' \<in> set (listeners_groups (em w)).
                    g' \<noteq> g \<longrightarrow> group_listeners w' g' = group_listeners w g')))) \<and>
    vlc_event_send prog n e w =
      (case find_group w (ev_type e) of
         None \<Rightarrow> Some (stamped w e, w)
       | Some g \<Rightarrow> map_option (Pair (stamped w e)) (send_listeners prog n g 0 (stamped w e) w)) \<and>
    (\<forall>e' w'. vlc_event_send prog n e w = Some (e', w') \<longrightarrow> valid_world w' \<and> first_owns w')"
proof (intro conjI allI impI ballI)
  fix a rest assume fl: "free_list w = a # rest"
  let ?w1 = "snd (vlc_event_manager_register_event_type w t)"
  show "fst (vlc_event_manager_register_event_type w t) = VLC_SUCCESS"
    by (simp add: register_result [OF fl])
  show "listeners_groups (em ?w1) = listeners_groups (em w) @ [a]"
    by (rule register_appends(1) [OF v fl])
  show "a \<notin> set (listeners_groups (em w))"
    by (rule register_appends(2) [OF v fl])
  show "groups_mem ?w1 a = Some \<lparr>event_type = t, listeners = []\<rparr>"
    by (rule register_appends(4) [OF v fl])
  show "valid_world ?w1" by (rule valid_world_register [OF v])
  show "first_owns ?w1" by (rule first_owns_register [OF v f])
  fix g assume "find_group w t = Some g"
  then show "find_group ?w1 t = Some g"
    by (simp add: register_result [OF fl] find_group_register [OF v fl])
next
  fix g t'
  assume "g \<in> set (listeners_groups (em w))" "type_of_group w g = Some t'"
    "find_group w t' \<noteq> Some g"
  then show "group_listeners w g = []" by (rule first_owns_later_empty [OF f])
next
  show "\<exists>r w'. vlc_event_attach w t cb d = Some (r, w') \<and> valid_world w' \<and> first_owns w' \<and>
       (r = VLC_SUCCESS \<longrightarrow>
          (\<exists>g l. find_group w t = Some g \<and>
                 group_listeners w' g = group_listeners w g @ [l] \<and>
                 (\<forall>g' \<in> set (listeners_groups (em w)).
                    g' \<noteq> g \<longrightarrow> group_listeners w' g' = group_listeners w g')))"
    using v
  proof (cases rule: vlc_event_attach_cases [where t = t and cb = cb and d = d])
    case nomem
    with v f show ?thesis by simp
  next
    case (unknown a rest)
    with v f show ?thesis by simp
  next
    case (found a rest g)
    let ?w' = "w\<lparr>free_list := rest,
             listeners_mem := (listeners_mem w)(a \<mapsto> \<lparr>p_user_data = d, pf_callback = cb\<rparr>),
             groups_mem := (groups_mem w)(g \<mapsto>
                (the (groups_mem w g))\<lparr>listeners := group_listeners w g @ [a]\<rparr>)\<rparr>"
    have "valid_world ?w'" by (rule valid_world_attach_found [OF v found(1,2)])
    moreover have "first_owns ?w'" by (rule first_owns_attach [OF v f found(3)])
    moreover have "group_listeners ?w' g = group_listeners w g @ [a]"
      by (rule attach_found_listeners(1) [OF v found(1,2)])
    moreover have "\<forall>g' \<in> set (listeners_groups (em w)).
        g' \<noteq> g \<longrightarrow> group_listeners ?w' g' = group_listeners w g'"
      by (simp add: attach_found_others)
    ultimately show ?thesis using found(2,3) by blast
  qed
next
  show "vlc_event_send prog n e w =
      (case find_group w (ev_type e) of
         None \<Rightarrow> Some (stamped w e, w)
       | Some g \<Rightarrow> map_option (Pair (stamped w e)) (send_listeners prog n g 0 (stamped w e) w))"
    by (rule vlc_event_send_find [OF v])
next
  fix e' w' assume s: "vlc_event_send prog n e w = Some (e', w')"
  from send_grows [OF v s] f show "valid_world w'" and "first_owns w'" by simp_all
qed

lemma dup_world_fields:
  "listeners_groups (em dup_world) = [10, 13]" "free_list dup_world = [14, 15]"
  "group_listeners dup_world 10 = [11, 12]" "group_listeners dup_world 13 = []"
  "type_of_group dup_world 10 = Some 5" "type_of_group dup_world 13 = Some 5"
  by (simp_all add: dup_world_def register_result [of demo_world 13 "[14, 15]"]
        demo_world_fields group_listeners_def type_of_group_def)

lemma valid_dup_world: "valid_world dup_world"
  unfolding dup_world_def by (rule valid_world_register [OF valid_demo_world])

lemma first_owns_dup_world: "first_owns dup_world"
  unfolding dup_world_def
  by (rule first_owns_register [OF valid_demo_world first_owns_demo_world])

lemma find_group_dup_world: "find_group dup_world 5 = Some 10"
  by (simp add: find_group_def dup_world_fields)

theorem duplicate_groups_stay_empty_witness:
  "valid_world dup_world \<and> first_owns dup_world \<and>
   listeners_groups (em dup_world) = [10, 13] \<and>
   type_of_group dup_world 10 = Some 5 \<and> type_of_group dup_world 13 = Some 5 \<and>
   free_list dup_world = 14 # [15] \<and>
   fst (vlc_event_manager_register_event_type dup_world 5) = VLC_SUCCESS \<and>
   listeners_groups (em (snd (vlc_event_manager_register_event_type dup_world 5))) =
     [10, 13, 14] \<and>
   find_group (snd (vlc_event_manager_register_event_type dup_world 5)) 5 = Some 10 \<and>
   find_group dup_world 5 = Some 10 \<and>
   group_listeners dup_world 13 = [] \<and>
   (\<exists>w'. vlc_event_attach dup_world 5 3 300 = Some (VLC_SUCCESS, w') \<and>
         group_listeners w' 10 = [11, 12, 14] \<and> group_listeners w' 13 = [] \<and>
         first_owns w')"
proof -
  note t = duplicate_groups_stay_empty [OF valid_dup_world first_owns_dup_world,
      of 5 3 300 quiet_prog 2 "demo_event 5"]
  have fl: "free_list dup_world = 14 # [15]" by (simp add: dup_world_fields)
  from t fl have reg:
    "fst (vlc_event_manager_register_event_type dup_world 5) = VLC_SUCCESS"
    "listeners_groups (em (snd (vlc_event_manager_register_event_type dup_world 5))) =
       [10, 13, 14]"
    "find_group (snd (vlc_event_manager_register_event_type dup_world 5)) 5 = Some 10"
    by (simp_all add: dup_world_fields find_group_dup_world)
  from t have "group_listeners dup_world 13 = []"
    by (simp add: dup_world_fields find_group_dup_world)
  moreover have att: "vlc_event_attach dup_world 5 3 300 =
      Some (VLC_SUCCESS,
        dup_world\<lparr>free_list := [15],
          listeners_mem := (listeners_mem dup_world)(14 \<mapsto> \<lparr>p_user_data = 300, pf_callback = 3\<rparr>),
          groups_mem := (groups_mem dup_world)(10 \<mapsto>
            (the (groups_mem dup_world 10))\<lparr>listeners := group_listeners dup_world 10 @ [14]\<rparr>)\<rparr>)"
    by (rule vlc_event_attach_found [OF valid_dup_world fl find_group_dup_world])
  moreover have "group_listeners
        (dup_world\<lparr>free_list := [15],
          listeners_mem := (listeners_mem dup_world)(14 \<mapsto> \<lparr>p_user_data = 300, pf_callback = 3\<rparr>),
          groups_mem := (groups_mem dup_world)(10 \<mapsto>
            (the (groups_mem dup_world 10))\<lparr>listeners := group_listeners dup_world 10 @ [14]\<rparr>)\<rparr>)
        10 = [11, 12, 14]"
    using attach_found_listeners(1) [OF valid_dup_world fl find_group_dup_world,
        where d = 300 and cb = 3]
    by (simp add: dup_world_fields)
  moreover have "group_listeners
        (dup_world\<lparr>free_list := [15],
          listeners_mem := (listeners_mem dup_world)(14 \<mapsto> \<lparr>p_user_data = 300, pf_callback = 3\<rparr>),
          groups_mem := (groups_mem dup_world)(10 \<mapsto>
            (the (groups_mem dup_world 10))\<lparr>listeners := group_listeners dup_world 10 @ [14]\<rparr>)\<rparr>)
        13 = []"
    by (simp add: attach_found_others dup_world_fields)
  moreover from t att have "first_owns
        (dup_world\<lparr>free_list := [15],
          listeners_mem := (listeners_mem dup_world)(14 \<mapsto> \<lparr>p_user_data = 300, pf_callback = 3\<rparr>),
          groups_mem := (groups_mem dup_world)(10 \<mapsto>
            (the (groups_mem dup_world 10))\<lparr>listeners := group_listeners dup_world 10 @ [14]\<rparr>)\<rparr>)"
    by auto
  ultimately have "\<exists>w'. vlc_event_attach dup_world 5 3 300 = Some (VLC_SUCCESS, w') \<and>
         group_listeners w' 10 = [11, 12, 14] \<and> group_listeners w' 13 = [] \<and>
         first_owns w'"
    by blast
  with reg fl valid_dup_world first_owns_dup_world find_group_dup_world
    \<open>group_listeners dup_world 13 = []\<close>
  show ?thesis by (simp add: dup_world_fields)
qed

subsection \<open>A listener that detaches itself while it is called\<close>

lemma find_both:
  "find P xs = Some x \<Longrightarrow> Q x \<Longrightarrow> find (\<lambda>y. P y \<and> Q y) xs = Some x"
  by (induction xs) (auto split: if_splits)

lemma send_self_detach:
  assumes v: "valid_world w" and f: "find_group w (ev_type e) = Some g"
    and ls: "group_listeners w g = [a, b]"
    and la: "listeners_mem w a = Some \<lparr>p_user_data = dA, pf_callback = A\<rparr>"
    and pa: "prog A (stamped w e) dA = Call_detach (ev_type e) A dA k"
    and k: "k VLC_SUCCESS = Return"
    and n: "2 \<le> n"
  shows "vlc_event_send prog n e w =
     Some (stamped w e,
           remove_listener (w\<lparr>calls := calls w @ [(A, stamped w e, dA)]\<rparr>) g [b] a)"
proof -
  let ?e = "stamped w e" and ?t = "ev_type e"
  let ?w0 = "w\<lparr>calls := calls w @ [(A, ?e, dA)]\<rparr>"
  let ?w2 = "remove_listener ?w0 g [b] a"
  note g_in = find_group_SomeD(1) [OF f]
  from valid_world_group [OF v g_in] obtain grp where grp: "groups_mem w g = Some grp" ..
  from ls grp have lg: "listeners grp = [a, b]" by (simp add: group_listeners_def)
  have a_in: "a \<in> set (group_listeners w g)" by (simp add: ls)
  have ag: "a \<noteq> g" using valid_world_listener_not_group [OF v g_in a_in] g_in by auto
  from n obtain m where m: "n = Suc (Suc m)" by (cases n; cases "n - 1") auto
  have v0: "valid_world ?w0" using v by simp
  have m0: "matches ?w0 A dA a" by (simp add: matches_def la)
  then have hm: "has_match ?w0 A dA g"
    by (auto simp: has_match_def group_listeners_def grp lg)
  have "find (\<lambda>x. type_of_group ?w0 x = Some ?t \<and> has_match ?w0 A dA x)
          (listeners_groups (em ?w0)) = Some g"
    using f hm by (intro find_both) (simp_all add: find_group_def type_of_group_def)
  then have det: "vlc_event_detach ?w0 ?t A dA = Some (VLC_SUCCESS, detach_in ?w0 g A dA)"
    by (simp add: vlc_event_detach_def detach_groups_find [OF v0])
  have "List.extract (matches ?w0 A dA) (group_listeners ?w0 g) = Some ([], a, [b])"
    using m0 by (simp add: extract_Some_iff group_listeners_def grp lg)
  then have di: "detach_in ?w0 g A dA = ?w2" by (simp add: detach_in_def)
  have cb: "run_cb prog (Suc m) (prog A ?e dA) ?w0 = Some ?w2"
    by (simp add: pa det di k)
  have g2: "groups_mem ?w2 g = Some (grp\<lparr>listeners := [b]\<rparr>)"
    using ag by (simp add: remove_listener_def free_def grp)
  have rest: "send_listeners prog (Suc m) g (Suc 0) ?e ?w2 = Some ?w2"
    by (subst send_listeners.simps) (simp add: g2)
  have "send_listeners prog n g 0 ?e w = Some ?w2"
    by (subst send_listeners.simps) (simp add: grp lg la m cb rest)
  then show ?thesis by (simp add: vlc_event_send_find [OF v] f)
qed

text \<open>
  C1, as the code has it. Take a state of the manager in which the first group of the
  event's type has the listeners \<open>[a, b]\<close>, in this order, and the callback \<open>A\<close> of
  \<open>a\<close>, when it is called with its user data, detaches \<open>(A, dA)\<close> from that type and
  then returns. A send of the event returns (a bound of 2 steps is enough) after one
  call, the call of \<open>A\<close>: the loop of \<open>vlc_event_send\<close> reads the group's array again
  after each call, the array is \<open>[b]\<close> by then, the index is 1, and the loop ends. The
  listener \<open>b\<close> is not called by this send; it stays attached, alone in the array, and
  the block of \<open>a\<close> is freed.
\<close>

theorem reentrant_detach_skips_next:
  assumes "valid_world w" and "find_group w (ev_type e) = Some g"
    and "group_listeners w g = [a, b]"
    and "listeners_mem w a = Some \<lparr>p_user_data = dA, pf_callback = A\<rparr>"
    and "prog A (stamped w e) dA = Call_detach (ev_type e) A dA k"
    and "k VLC_SUCCESS = Return"
    and "2 \<le> n"
  shows "\<exists>w'. vlc_event_send prog n e w = Some (stamped w e, w') \<and>
           calls w' = calls w @ [(A, stamped w e, dA)] \<and>
           group_listeners w' g = [b] \<and>
           listeners_mem w' b = listeners_mem w b \<and>
           listeners_mem w' a = None"
proof -
  let ?w0 = "w\<lparr>calls := calls w @ [(A, stamped w e, dA)]\<rparr>"
  let ?w2 = "remove_listener ?w0 g [b] a"
  note g_in = find_group_SomeD(1) [OF assms(2)]
  from valid_world_group [OF assms(1) g_in] obtain grp where grp: "groups_mem w g = Some grp" ..
  have a_in: "a \<in> set (group_listeners w g)" by (simp add: assms(3))
  have ag: "a \<noteq> g" using valid_world_listener_not_group [OF assms(1) g_in a_in] g_in by auto
  have ab: "a \<noteq> b" using valid_world_distinct_listeners [OF assms(1) g_in] assms(3) by simp
  have "vlc_event_send prog n e w = Some (stamped w e, ?w2)"
    by (rule send_self_detach [where prog = prog and k = k, OF assms])
  moreover have "calls ?w2 = calls w @ [(A, stamped w e, dA)]"
    by (simp add: remove_listener_def free_def)
  moreover have "group_listeners ?w2 g = [b]"
    using ag by (simp add: remove_listener_def free_def group_listeners_def grp)
  moreover have "listeners_mem ?w2 b = listeners_mem w b"
    using ab by (simp add: remove_listener_def free_def)
  moreover have "listeners_mem ?w2 a = None"
    by (simp add: remove_listener_def free_def)
  ultimately show ?thesis by blast
qed

theorem reentrant_detach_skips_next_witness:
  "valid_world demo_world \<and> find_group demo_world (ev_type (demo_event 5)) = Some 10 \<and>
   group_listeners demo_world 10 = [11, 12] \<and>
   listeners_mem demo_world 11 = Some \<lparr>p_user_data = 100, pf_callback = 1\<rparr> \<and>
   demo_prog 1 (stamped demo_world (demo_event 5)) 100 =
     Call_detach (ev_type (demo_event 5)) 1 100 (\<lambda>r. Return) \<and>
   (2 :: nat) \<le> 2 \<and>
   (\<exists>w'. vlc_event_send demo_prog 2 (demo_event 5) demo_world =
           Some (stamped demo_world (demo_event 5), w') \<and>
         calls w' = [(1, stamped demo_world (demo_event 5), 100)] \<and>
         group_listeners w' 10 = [12] \<and>
         listeners_mem w' 12 = Some \<lparr>p_user_data = 200, pf_callback = 2\<rparr> \<and>
         listeners_mem w' 11 = None)"
proof -
  have e: "ev_type (demo_event 5) = 5" by (simp add: demo_event_def)
  have h: "valid_world demo_world" "find_group demo_world (ev_type (demo_event 5)) = Some 10"
    "group_listeners demo_world 10 = [11, 12]"
    "listeners_mem demo_world 11 = Some \<lparr>p_user_data = 100, pf_callback = 1\<rparr>"
    "demo_prog 1 (stamped demo_world (demo_event 5)) 100 =
       Call_detach (ev_type (demo_event 5)) 1 100 (\<lambda>r. Return)"
    "(\<lambda>r. Return) VLC_SUCCESS = Return" "(2 :: nat) \<le> 2"
    by (simp_all add: valid_demo_world find_group_demo_world e demo_world_fields
          demo_prog_def)
  from reentrant_detach_skips_next [where prog = demo_prog and k = "\<lambda>r. Return", OF h]
  have "\<exists>w'. vlc_event_send demo_prog 2 (demo_event 5) demo_world =
           Some (stamped demo_world (demo_event 5), w') \<and>
         calls w' = [(1, stamped demo_world (demo_event 5), 100)] \<and>
         group_listeners w' 10 = [12] \<and>
         listeners_mem w' 12 = Some \<lparr>p_user_data = 200, pf_callback = 2\<rparr> \<and>
         listeners_mem w' 11 = None"
    by (simp add: demo_world_fields)
  with h(1-5,7) show ?thesis by blast
qed

text \<open>
  The claim as the specification states it fails. Start from the empty state, initialise
  the manager, register type 5, attach callback 1 with user data 100 and then callback 2
  with user data 200: this is the state of the examples. Callback 1 detaches itself when
  it is called, callback 2 does nothing. A send of an event of type 5 returns after the
  call of callback 1 alone: callback 2, which was attached during the whole send, is not
  called, where the specification's snapshot policy would have it called once.
\<close>

theorem reentrant_detach_counterexample:
  "attach_all
     (snd (vlc_event_manager_register_event_type
        (snd (vlc_event_manager_init blank_world 7 8)) 5))
     5 [(1, 100), (2, 200)] = Some demo_world \<and>
   map_option (map fst \<circ> calls \<circ> snd)
     (vlc_event_send demo_prog 10 (demo_event 5) demo_world) = Some [1]"
proof
  show "attach_all
     (snd (vlc_event_manager_register_event_type
        (snd (vlc_event_manager_init blank_world 7 8)) 5))
     5 [(1, 100), (2, 200)] = Some demo_world"
    by (simp add: vlc_event_manager_init_def vlc_event_manager_register_event_type_def
          malloc_def vlc_event_attach_def attach_groups.simps ARRAY_APPEND_def
          blank_world_def demo_world_def)
  have e: "ev_type (demo_event 5) = 5" by (simp add: demo_event_def)
  have "vlc_event_send demo_prog 10 (demo_event 5) demo_world =
     Some (stamped demo_world (demo_event 5),
           remove_listener
             (demo_world\<lparr>calls := calls demo_world @
                 [(1, stamped demo_world (demo_event 5), 100)]\<rparr>) 10 [12] 11)"
    by (rule send_self_detach [where prog = demo_prog and k = "\<lambda>r. Return"])
       (simp_all add: valid_demo_world find_group_demo_world e demo_world_fields demo_prog_def)
  then show "map_option (map fst \<circ> calls \<circ> snd)
     (vlc_event_send demo_prog 10 (demo_event 5) demo_world) = Some [1]"
    by (simp add: remove_listener_def free_def demo_world_fields)
qed

subsection \<open>Attach, then send, when a listener detaches itself\<close>

lemma twin_world_fields:
  "free_list twin_world = [13, 14, 15]" "calls twin_world = []"
  "listeners_groups (em twin_world) = [10]"
  "group_listeners twin_world 10 = [11, 12]"
  "groups_mem twin_world 10 = Some \<lparr>event_type = 5, listeners = [11, 12]\<rparr>"
  "listeners_mem twin_world 11 = Some \<lparr>p_user_data = 100, pf_callback = 1\<rparr>"
  "listeners_mem twin_world 12 = Some \<lparr>p_user_data = 100, pf_callback = 1\<rparr>"
  "groups_mem twin_world 13 = None" "groups_mem twin_world 14 = None"
  "groups_mem twin_world 15 = None" "listeners_mem twin_world 13 = None"
  "listeners_mem twin_world 14 = None" "listeners_mem twin_world 15 = None"
  by (simp_all add: twin_world_def group_listeners_def)

lemma valid_twin_world: "valid_world twin_world"
  by (simp add: valid_world_def twin_world_fields)

lemma send_twin_world:
  "vlc_event_send demo_prog 10 (demo_event 5) twin_world =
     Some (stamped twin_world (demo_event 5),
           remove_listener
             (twin_world\<lparr>calls := calls twin_world @
                 [(1, stamped twin_world (demo_event 5), 100)]\<rparr>) 10 [12] 11)"
  by (rule send_self_detach [where prog = demo_prog and k = "\<lambda>r. Return"])
     (simp_all add: valid_twin_world find_group_def type_of_group_def twin_world_fields
        demo_event_def demo_prog_def)

lemma send_demo_world_self_detach:
  "vlc_event_send demo_prog 10 (demo_event 5) demo_world =
     Some (stamped demo_world (demo_event 5),
           remove_listener
             (demo_world\<lparr>calls := calls demo_world @
                 [(1, stamped demo_world (demo_event 5), 100)]\<rparr>) 10 [12] 11)"
  by (rule send_self_detach [where prog = demo_prog and k = "\<lambda>r. Return"])
     (simp_all add: valid_demo_world find_group_demo_world demo_world_fields demo_event_def
        demo_prog_def)

text \<open>
  C3 as the specification states it, for every callback, fails. Initialise the manager,
  register type 5 and attach callback 1 with user data 100, which detaches itself when it
  is called. Now attach callback 2 with user data 200, which succeeds, and send an event
  of type 5: the send returns after the call of callback 1 alone, and callback 2, attached
  just before the send, is called zero times, not once.
\<close>

theorem attach_then_send_counterexample:
  "attach_all
     (snd (vlc_event_manager_register_event_type
        (snd (vlc_event_manager_init blank_world 7 8)) 5))
     5 [(1, 100)] = Some solo_world \<and>
   vlc_event_attach solo_world 5 2 200 = Some (VLC_SUCCESS, demo_world) \<and>
   map_option (map fst \<circ> calls \<circ> snd)
     (vlc_event_send demo_prog 10 (demo_event 5) demo_world) = Some [1] \<and>
   count_list [1 :: vlc_event_callback_t] 2 = 0"
proof (intro conjI)
  show "attach_all
     (snd (vlc_event_manager_register_event_type
        (snd (vlc_event_manager_init blank_world 7 8)) 5))
     5 [(1, 100)] = Some solo_world"
    by (simp add: vlc_event_manager_init_def vlc_event_manager_register_event_type_def
          malloc_def vlc_event_attach_def attach_groups.simps ARRAY_APPEND_def
          blank_world_def solo_world_def)
  show "vlc_event_attach solo_world 5 2 200 = Some (VLC_SUCCESS, demo_world)"
    by (simp add: malloc_def vlc_event_attach_def attach_groups.simps ARRAY_APPEND_def
          solo_world_def demo_world_def)
  show "map_option (map fst \<circ> calls \<circ> snd)
     (vlc_event_send demo_prog 10 (demo_event 5) demo_world) = Some [1]"
    by (simp add: send_demo_world_self_detach remove_listener_def free_def demo_world_fields)
  show "count_list [1 :: vlc_event_callback_t] 2 = 0" by simp
qed

text \<open>
  C7 as the specification states it, for every pair of callback and user data, fails.
  Initialise the manager, register type 5 and attach twice callback 1 with user data 100,
  which detaches \<open>(1, 100)\<close> from type 5 when it is called: both attaches succeed and the
  group has two entries. A send of an event of type 5 returns after one call of
  callback 1: the call removes the first entry, the second is then at index 0 and the
  loop goes on at index 1. The callback is called once, not twice.
\<close>

theorem attach_twice_counterexample:
  "attach_all
     (snd (vlc_event_manager_register_event_type
        (snd (vlc_event_manager_init blank_world 7 8)) 5))
     5 [(1, 100), (1, 100)] = Some twin_world \<and>
   map_option (map fst \<circ> calls \<circ> snd)
     (vlc_event_send demo_prog 10 (demo_event 5) twin_world) = Some [1] \<and>
   count_list [1 :: vlc_event_callback_t] 1 = 1"
proof (intro conjI)
  show "attach_all
     (snd (vlc_event_manager_register_event_type
        (snd (vlc_event_manager_init blank_world 7 8)) 5))
     5 [(1, 100), (1, 100)] = Some twin_world"
    by (simp add: vlc_event_manager_init_def vlc_event_manager_register_event_type_def
          malloc_def vlc_event_attach_def attach_groups.simps ARRAY_APPEND_def
          blank_world_def twin_world_def)
  show "map_option (map fst \<circ> calls \<circ> snd)
     (vlc_event_send demo_prog 10 (demo_event 5) twin_world) = Some [1]"
    by (simp add: send_twin_world remove_listener_def free_def twin_world_fields)
  show "count_list [1 :: vlc_event_callback_t] 1 = 1" by simp
qed

end
